theory Spec2Isabelle
  imports Main "HOL-Library.Word"
begin

section \<open>JavaScript strings\<close>

text \<open>
  A JavaScript string is a sequence of UTF-16 code units and \<open>.length\<close> counts code
  units, so a string is a list of 16-bit words. \<open>str\<close> embeds an ASCII literal.
\<close>

type_synonym codeunit = "16 word"
type_synonym jsstring = "codeunit list"

definition str :: "string \<Rightarrow> jsstring" where
  "str s = map of_char s"

definition SP :: codeunit where
  "SP = 0x20"

definition COLON :: codeunit where
  "COLON = 0x3A"

definition UNDERSCORE :: codeunit where
  "UNDERSCORE = 0x5F"

text \<open>
  The code units that \<open>.\<close> of a regular expression without the \<open>s\<close> flag does not
  match: LF, CR, U+2028 (line separator) and U+2029 (paragraph separator).
\<close>

definition lineTerminator :: "codeunit \<Rightarrow> bool" where
  "lineTerminator c \<longleftrightarrow> c = 0x0A \<or> c = 0x0D \<or> c = 0x2028 \<or> c = 0x2029"

text \<open>
  \<open>s.split(/ (.*)/)\<close>, the idiom of \<open>routeEvent\<close>. The expression matches one space
  followed by the longest run of code units that are not line terminators, and the
  captured run is spliced into the result. With a first space at index \<open>q\<close> the array
  is \<open>s[0..q)\<close>, the capture, and then the split of what follows the capture (the
  search for the next match resumes where the previous match ended); without a space
  it is \<open>[s]\<close>.
\<close>

definition beforeSpace :: "jsstring \<Rightarrow> jsstring" where
  "beforeSpace s = takeWhile (\<lambda>c. c \<noteq> SP) s"

definition afterSpace :: "jsstring \<Rightarrow> jsstring" where
  "afterSpace s = tl (dropWhile (\<lambda>c. c \<noteq> SP) s)"

definition dotStar :: "jsstring \<Rightarrow> jsstring" where
  "dotStar s = takeWhile (\<lambda>c. \<not> lineTerminator c) s"

definition afterDotStar :: "jsstring \<Rightarrow> jsstring" where
  "afterDotStar s = dropWhile (\<lambda>c. \<not> lineTerminator c) s"

function splitSpaceRest :: "jsstring \<Rightarrow> jsstring list" where
  "splitSpaceRest s =
     (if SP \<in> set s
      then beforeSpace s # dotStar (afterSpace s) # splitSpaceRest (afterDotStar (afterSpace s))
      else [s])"
  by pat_completeness auto
termination
proof (relation "measure length")
  show "wf (measure length)" by simp
next
  fix s :: jsstring
  assume sp: "SP \<in> set s"
  then have ne: "dropWhile (\<lambda>c. c \<noteq> SP) s \<noteq> []"
    by simp
  have "length (afterDotStar (afterSpace s)) \<le> length (afterSpace s)"
    by (simp add: afterDotStar_def length_dropWhile_le)
  also have "length (afterSpace s) < length (dropWhile (\<lambda>c. c \<noteq> SP) s)"
    using ne by (simp add: afterSpace_def)
  also have "\<dots> \<le> length s"
    by (rule length_dropWhile_le)
  finally show "(afterDotStar (afterSpace s), s) \<in> measure length" by simp
qed

text \<open>
  Reading index \<open>i\<close> of a JavaScript array: \<open>undefined\<close> (here \<open>None\<close>) out of range.
  The destructuring \<open>const [a, b] = xs\<close> reads the indices 0 and 1.
\<close>

definition at :: "'a list \<Rightarrow> nat \<Rightarrow> 'a option" where
  "at xs i = (if i < length xs then Some (xs ! i) else None)"

text \<open>\<open>s.split(":")\<close>: the pieces between the occurrences of a one-unit separator.\<close>

fun splitOn :: "codeunit \<Rightarrow> jsstring \<Rightarrow> jsstring list" where
  "splitOn sep [] = [[]]"
| "splitOn sep (c # cs) =
     (if c = sep then [] # splitOn sep cs
      else (case splitOn sep cs of [] \<Rightarrow> [[c]] | p # ps \<Rightarrow> (c # p) # ps))"

definition startsWith :: "jsstring \<Rightarrow> jsstring \<Rightarrow> bool" where
  "startsWith s p \<longleftrightarrow> take (length p) s = p"

text \<open>
  String concatenation with a possibly \<open>undefined\<close> right operand:
  \<open>"a" + undefined\<close> is \<open>"aundefined"\<close>.
\<close>

definition plusStr :: "jsstring \<Rightarrow> jsstring option \<Rightarrow> jsstring" where
  "plusStr a b = (case b of None \<Rightarrow> a @ str ''undefined'' | Some t \<Rightarrow> a @ t)"

text \<open>\<open>n.toString(radix)\<close> for a non-negative integer, lower-case digits.\<close>

definition digitChar :: "nat \<Rightarrow> codeunit" where
  "digitChar d = (if d < 10 then of_nat (48 + d) else of_nat (87 + d))"

function toStringRadix :: "nat \<Rightarrow> nat \<Rightarrow> jsstring" where
  "toStringRadix r n =
     (if r < 2 \<or> n < r then [digitChar n]
      else toStringRadix r (n div r) @ [digitChar (n mod r)])"
  by pat_completeness auto
termination
  by (relation "measure snd") auto


section \<open>Constants\<close>

text \<open>
  The limits are those of the constants the source declares beside \<open>streamScriptEvent\<close>:
  428 code units for a message, 30 for a namespace, and a padding of 35 reserved in every
  chunk of a stream for the stream id, the flags and the separators.
\<close>

definition MAX_MESSAGE_LENGTH :: nat where
  "MAX_MESSAGE_LENGTH = 428"

definition MAX_NAMESPACE_LENGTH :: nat where
  "MAX_NAMESPACE_LENGTH = 30"

definition STREAM_MESSAGE_PADDING :: nat where
  "STREAM_MESSAGE_PADDING = MAX_NAMESPACE_LENGTH + 5"

definition maxMessageLengthWithPadding :: nat where
  "maxMessageLengthWithPadding = MAX_MESSAGE_LENGTH - STREAM_MESSAGE_PADDING"

definition IPCFAILURE :: jsstring where
  "IPCFAILURE = str ''__IPCFAILURE__''"

section \<open>Values, errors and listeners\<close>

text \<open>
  \<open>SerializableValue\<close>: the JSON values and the \<open>Failure\<close> class, whose one field
  \<open>message\<close> holds whatever the constructor was given (the cast \<open>as string\<close> of
  \<open>parseRawPayload\<close> does nothing at run time). An object is the list of its
  properties; numbers are never inspected by the router.
\<close>

datatype jsval =
    JNull
  | JBool bool
  | JNum int
  | JStr jsstring
  | JArr "jsval list"
  | JObj "(jsstring \<times> jsval) list"
  | Failure jsval

text \<open>
  What can be thrown, or reject a promise. \<open>Thrown v\<close> is a value thrown by
  application code, which may be falsy; every other error is an \<open>Error\<close> object.
\<close>

datatype jserror =
    TypeError
  | SyntaxError
  | InvalidUid
  | AlreadyRegistered jsstring
  | InvalidListenerId jsstring
  | MessageTooLong
  | NamespaceTooLong
  | TimedOut jsstring
  | AppError jsstring
  | Thrown jsval

fun truthy :: "jsval \<Rightarrow> bool" where
  "truthy JNull = False"
| "truthy (JBool b) = b"
| "truthy (JNum n) = (n \<noteq> 0)"
| "truthy (JStr s) = (s \<noteq> [])"
| "truthy (JArr _) = True"
| "truthy (JObj _) = True"
| "truthy (Failure _) = True"

fun truthyError :: "jserror \<Rightarrow> bool" where
  "truthyError (Thrown v) = truthy v"
| "truthyError _ = True"

fun isFailure :: "jsval \<Rightarrow> bool" where
  "isFailure (Failure _) = True"
| "isFailure _ = False"

text \<open>
  A call of a listener returns a value, throws, or returns a promise that is still
  pending (\<open>Suspended\<close>); such a promise is settled later, if ever, with a \<open>result\<close>.
\<close>

datatype result = Returned jsval | Threw jserror

datatype outcome = Done result | Suspended

text \<open>
  The listeners a router holds: a callback of the application, or one of the two
  closures the router itself registers under a response listener id. The closure of
  \<open>invokeInternal\<close> captures the response listener id, the promise, the constant
  \<open>timeoutId\<close> and \<open>throwFailures\<close>; the closure of \<open>invokeStreamInternal\<close>
  captures the variable \<open>timeoutId\<close> instead, which is read through the promise's
  number in \<open>streamTimeoutId\<close>.
\<close>

datatype listener =
    App "jsval \<Rightarrow> outcome"
  | InvokeResponse jsstring nat nat bool
  | StreamResponse jsstring nat bool

datatype settlement = Pending | Resolved jsval | Rejected jserror

text \<open>The callback given to \<open>system.runTimeout\<close>: response listener id, promise, event.\<close>

datatype timerCallback = TimeoutCallback jsstring nat jsstring

text \<open>What runs after an \<open>await listener(payload)\<close> that suspended.\<close>

datatype continuation = CallContinuation | InvokeContinuation jsstring

text \<open>What \<open>console.warn\<close> was given.\<close>

datatype logged = WarnValue jsval | WarnError jserror

datatype IpcTypeFlag = Send | Invoke | SendStream | InvokeStream

text \<open>
  The collaborators the source imports and this development takes as parameters: the
  character of each \<open>IpcTypeFlag\<close> (the enum is declared in \<open>common.js\<close>), \<open>JSON.parse\<close> (\<open>None\<close> is its \<open>SyntaxError\<close>) and
  \<open>JSON.stringify\<close>.
\<close>

record env =
  flagChar :: "IpcTypeFlag \<Rightarrow> codeunit"
  jsonParse :: "jsstring \<Rightarrow> jsval option"
  jsonStringify :: "jsval \<Rightarrow> jsstring"

section \<open>The router and its host\<close>

text \<open>
  The first six fields are the fields of class \<open>Router\<close>. The others are the state of
  the host the router acts on: whether \<open>onScriptEventRecieved\<close> is subscribed, the
  frames handed to the transport, the stream transmissions in progress (the frames
  still to emit and the \<open>finally\<close> callback), the armed timers \<open>(handle, due tick,
  callback)\<close>, the clock, the promises returned by the invoke calls, the \<open>timeoutId\<close>
  variables of \<open>invokeStreamInternal\<close>, the suspended listener calls, the rejections
  of promises nobody awaits, and the console.
\<close>

record world =
  uid :: jsstring
  internalIsValid :: bool
  pendingStreams :: "jsstring \<rightharpoonup> jsstring"
  listeners :: "jsstring \<rightharpoonup> listener"
  listenerUidsGenerated :: nat
  streamUidsGenerated :: nat
  subscribed :: bool
  sent :: "(jsstring \<times> jsstring) list"
  jobs :: "((jsstring \<times> jsstring) list \<times> timerCallback option) list"
  timers :: "(nat \<times> nat \<times> timerCallback) list"
  timersCreated :: nat
  now :: nat
  promises :: "settlement list"
  streamTimeoutId :: "nat \<rightharpoonup> nat"
  suspended :: "continuation list"
  unhandledRejections :: "jserror list"
  warnings :: "logged list"


section \<open>Splitting a payload into chunks\<close>

text \<open>
  The first loop of \<open>streamScriptEvent\<close>: as long as the last part is longer than the
  padded limit, it is cut in two, the left piece replaces it and the right piece, when
  it is not empty, is pushed.
\<close>

function splitLoop :: "jsstring list \<Rightarrow> jsstring list" where
  "splitLoop parts =
     (if length (last parts) \<le> maxMessageLengthWithPadding then parts
      else if drop maxMessageLengthWithPadding (last parts) \<noteq> []
      then splitLoop (parts[length parts - 1 := take maxMessageLengthWithPadding (last parts)]
                        @ [drop maxMessageLengthWithPadding (last parts)])
      else splitLoop (parts[length parts - 1 := take maxMessageLengthWithPadding (last parts)]))"
  by pat_completeness auto
termination
proof (relation "measure (\<lambda>parts. length (last parts))")
  show "wf (measure (\<lambda>parts. length (last parts)))" by simp
next
  fix parts :: "jsstring list"
  assume "\<not> length (last parts) \<le> maxMessageLengthWithPadding"
  then show "(parts[length parts - 1 := take maxMessageLengthWithPadding (last parts)]
                @ [drop maxMessageLengthWithPadding (last parts)], parts)
             \<in> measure (\<lambda>parts. length (last parts))"
    by (simp add: maxMessageLengthWithPadding_def MAX_MESSAGE_LENGTH_def
        STREAM_MESSAGE_PADDING_def MAX_NAMESPACE_LENGTH_def)
next
  fix parts :: "jsstring list"
  assume "\<not> length (last parts) \<le> maxMessageLengthWithPadding"
    and "\<not> drop maxMessageLengthWithPadding (last parts) \<noteq> []"
  then show "(parts[length parts - 1 := take maxMessageLengthWithPadding (last parts)], parts)
             \<in> measure (\<lambda>parts. length (last parts))"
    by simp
qed

text \<open>
  The second loop of \<open>streamScriptEvent\<close>: part \<open>i\<close> goes out as
  \<open>`${streamId} ${isLastPart ? "t" : "f"} ${part}`\<close> with
  \<open>isLastPart = i >= parts.length - 1\<close>.
\<close>

definition chunkBody :: "jsstring \<Rightarrow> bool \<Rightarrow> jsstring \<Rightarrow> jsstring" where
  "chunkBody streamId isLastPart part =
     streamId @ [SP] @ (if isLastPart then str ''t'' else str ''f'') @ [SP] @ part"

definition chunkBodies :: "jsstring \<Rightarrow> jsstring list \<Rightarrow> jsstring list" where
  "chunkBodies streamId parts =
     map (\<lambda>i. chunkBody streamId (i \<ge> length parts - 1) (parts ! i)) [0..<length parts]"

text \<open>
  \<open>streamScriptEvent\<close> itself: the messages it dispatches to \<open>event\<close>, in order, and
  the new value of \<open>streamCount\<close>.
\<close>

definition streamScriptEvent ::
  "env \<Rightarrow> jsstring \<Rightarrow> jsstring \<Rightarrow> jsval \<Rightarrow> bool \<Rightarrow> nat
     \<Rightarrow> jserror + ((jsstring \<times> jsstring) list \<times> nat)" where
  "streamScriptEvent e ev namespace v force streamCount =
     (if \<not> force \<and> length namespace > MAX_NAMESPACE_LENGTH then Inl NamespaceTooLong
      else Inr (map (\<lambda>b. (ev, b))
                  (chunkBodies (namespace @ toStringRadix 10 streamCount)
                     (splitLoop [jsonStringify e v])),
                streamCount + 1))"

section \<open>Sending\<close>

text \<open>
  Modelled from the spec: \<open>sendInternal\<close> of \<open>send.js\<close>, which is not among the source
  files. The body of a frame is the type flag followed by the content; a content longer
  than the limit is an error raised before anything is sent, unless \<open>force\<close> is set.
\<close>

definition sendInternal ::
  "env \<Rightarrow> IpcTypeFlag \<Rightarrow> jsstring \<Rightarrow> jsstring \<Rightarrow> bool \<Rightarrow> world \<Rightarrow> jserror + world" where
  "sendInternal e flag ev content force w =
     (if \<not> force \<and> length content > MAX_MESSAGE_LENGTH then Inl MessageTooLong
      else Inr (w\<lparr>sent := sent w @ [(ev, flagChar e flag # content)]\<rparr>))"

text \<open>
  Modelled from the spec: \<open>sendStreamInternal\<close> of \<open>send.js\<close>, which is not among the
  source files. The content is cut as \<open>streamScriptEvent\<close> cuts it, every chunk frame
  (\<open>streamFrames\<close>) is the stream's type flag followed by stream id, terminal flag and
  fragment, and the frames are emitted one at a time, the returned promise settling after
  the last one. Here the transmission is queued with the callback its caller attaches by
  \<open>finally\<close>; \<open>stepJob\<close> below emits the frames.
\<close>

definition streamFrames ::
  "env \<Rightarrow> IpcTypeFlag \<Rightarrow> jsstring \<Rightarrow> jsstring \<Rightarrow> jsstring \<Rightarrow> (jsstring \<times> jsstring) list" where
  "streamFrames e flag ev streamId content =
     map (\<lambda>b. (ev, flagChar e flag # b)) (chunkBodies streamId (splitLoop [content]))"

definition sendStreamInternal ::
  "env \<Rightarrow> IpcTypeFlag \<Rightarrow> jsstring \<Rightarrow> jsstring \<Rightarrow> jsstring \<Rightarrow> bool
     \<Rightarrow> timerCallback option \<Rightarrow> world \<Rightarrow> world" where
  "sendStreamInternal e flag ev content streamId force fin w =
     w\<lparr>jobs := jobs w @ [(streamFrames e flag ev streamId content, fin)]\<rparr>"

text \<open>Modelled from the spec: \<open>send\<close> of \<open>send.js\<close>, the serialized payload as one frame.\<close>

definition send :: "env \<Rightarrow> jsstring \<Rightarrow> jsval \<Rightarrow> bool \<Rightarrow> world \<Rightarrow> jserror + world" where
  "send e ev v force w = sendInternal e Send ev (jsonStringify e v) force w"

section \<open>Timers and promises\<close>

definition runTimeout :: "timerCallback \<Rightarrow> nat \<Rightarrow> world \<Rightarrow> nat \<times> world" where
  "runTimeout cb delay w =
     (timersCreated w,
      w\<lparr>timers := timers w @ [(timersCreated w, now w + delay, cb)],
        timersCreated := timersCreated w + 1\<rparr>)"

definition clearRun :: "nat \<Rightarrow> world \<Rightarrow> world" where
  "clearRun h w = w\<lparr>timers := filter (\<lambda>t. fst t \<noteq> h) (timers w)\<rparr>"

text \<open>\<open>resolve\<close> and \<open>reject\<close> of a promise: without effect once it is settled.\<close>

definition settle :: "nat \<Rightarrow> settlement \<Rightarrow> world \<Rightarrow> world" where
  "settle p s w =
     (if p < length (promises w) \<and> promises w ! p = Pending
      then w\<lparr>promises := (promises w)[p := s]\<rparr> else w)"

definition newPromise :: "world \<Rightarrow> nat \<times> world" where
  "newPromise w = (length (promises w), w\<lparr>promises := promises w @ [Pending]\<rparr>)"


section \<open>Class Router\<close>

text \<open>
  The constructor; \<open>MAX_ROUTER_UID_LENGTH\<close> is a parameter. \<open>initialWorld\<close> is the
  router it makes, subscribed, on a host that has done nothing yet.
\<close>

definition initialWorld :: "jsstring \<Rightarrow> world" where
  "initialWorld u =
     \<lparr>uid = u, internalIsValid = True, pendingStreams = Map.empty,
      listeners = Map.empty, listenerUidsGenerated = 0, streamUidsGenerated = 0,
      subscribed = True, sent = [], jobs = [], timers = [], timersCreated = 0,
      now = 0, promises = [], streamTimeoutId = Map.empty, suspended = [],
      unhandledRejections = [], warnings = []\<rparr>"

definition newRouter :: "nat \<Rightarrow> jsstring \<Rightarrow> jserror + world" where
  "newRouter maxRouterUidLength u =
     (if u = [] \<or> length u > maxRouterUidLength then Inl InvalidUid
      else Inr (initialWorld u))"

definition isValid :: "world \<Rightarrow> bool" where
  "isValid w = internalIsValid w"

definition destroy :: "world \<Rightarrow> world" where
  "destroy w = w\<lparr>subscribed := False, internalIsValid := False\<rparr>"

definition registerListener :: "jsstring \<Rightarrow> listener \<Rightarrow> world \<Rightarrow> jserror + world" where
  "registerListener ev callback w =
     (if listeners w ev \<noteq> None then Inl (AlreadyRegistered ev)
      else if COLON \<notin> set ev then Inl (InvalidListenerId ev)
      else (case at (splitOn COLON ev) 1 of
              None \<Rightarrow> Inl TypeError
            | Some localPart \<Rightarrow>
                if startsWith localPart [UNDERSCORE] then Inl (InvalidListenerId ev)
                else Inr (w\<lparr>listeners := (listeners w)(ev \<mapsto> callback)\<rparr>)))"

text \<open>The router after a call of \<open>registerListener\<close>, whether it threw or not.\<close>

definition afterRegister :: "jsstring \<Rightarrow> listener \<Rightarrow> world \<Rightarrow> world" where
  "afterRegister ev callback w =
     (case registerListener ev callback w of Inl err \<Rightarrow> w | Inr w1 \<Rightarrow> w1)"

text \<open>\<open>Map.prototype.delete\<close> returns whether the key was present.\<close>

definition removeListener :: "jsstring \<Rightarrow> world \<Rightarrow> bool \<times> world" where
  "removeListener ev w = (listeners w ev \<noteq> None, w\<lparr>listeners := (listeners w)(ev := None)\<rparr>)"

definition setListener :: "jsstring \<Rightarrow> listener \<Rightarrow> world \<Rightarrow> world" where
  "setListener ev callback w = w\<lparr>listeners := (listeners w)(ev \<mapsto> callback)\<rparr>"

definition generateListenerUid :: "world \<Rightarrow> jsstring \<times> world" where
  "generateListenerUid w =
     (uid w @ str '':__'' @ toStringRadix 36 (listenerUidsGenerated w),
      w\<lparr>listenerUidsGenerated := listenerUidsGenerated w + 1\<rparr>)"

definition generateStreamUid :: "world \<Rightarrow> jsstring \<times> world" where
  "generateStreamUid w =
     (uid w @ toStringRadix 36 (streamUidsGenerated w),
      w\<lparr>streamUidsGenerated := streamUidsGenerated w + 1\<rparr>)"

text \<open>
  \<open>sendStream\<close>, by the \<open>sendStream\<close> of \<open>send.js\<close> (modelled from the spec as the
  stream of the serialized payload).
\<close>

definition sendStream :: "env \<Rightarrow> jsstring \<Rightarrow> jsval \<Rightarrow> bool \<Rightarrow> world \<Rightarrow> world" where
  "sendStream e ev v force w =
     (case generateStreamUid w of
        (streamId, w1) \<Rightarrow>
          sendStreamInternal e SendStream ev (jsonStringify e v) streamId force None w1)"

text \<open>
  \<open>sendAuto\<close> is \<open>async\<close>: an error of \<open>sendInternal\<close> rejects the returned promise
  (the first component) and leaves the state as it was.
\<close>

definition sendAuto :: "env \<Rightarrow> jsstring \<Rightarrow> jsval \<Rightarrow> bool \<Rightarrow> world \<Rightarrow> jserror option \<times> world" where
  "sendAuto e ev v force w =
     (if length (jsonStringify e v) > MAX_MESSAGE_LENGTH
      then (case generateStreamUid w of
              (streamId, w1) \<Rightarrow>
                (None, sendStreamInternal e SendStream ev (jsonStringify e v) streamId force None w1))
      else (case sendInternal e Send ev (jsonStringify e v) force w of
              Inl err \<Rightarrow> (Some err, w)
            | Inr w1 \<Rightarrow> (None, w1)))"

text \<open>\<open>void p\<close> for a promise \<open>p\<close> that may reject: the rejection stays unhandled.\<close>

definition voidPromise :: "jserror option \<times> world \<Rightarrow> world" where
  "voidPromise r =
     (case r of
        (None, w) \<Rightarrow> w
      | (Some err, w) \<Rightarrow> w\<lparr>unhandledRejections := unhandledRejections w @ [err]\<rparr>)"

definition settleWith :: "bool \<Rightarrow> nat \<Rightarrow> jsval \<Rightarrow> world \<Rightarrow> world" where
  "settleWith throwFailures p v w =
     (if isFailure v \<and> throwFailures then settle p (Rejected (Thrown v)) w
      else settle p (Resolved v) w)"

text \<open>
  The promise executor of \<open>invokeInternal\<close>: the timer is armed, the listener set and
  the frame sent; an exception of \<open>sendInternal\<close> inside the executor rejects the promise.
\<close>

definition invokeInternal ::
  "env \<Rightarrow> jsstring \<Rightarrow> jsstring \<Rightarrow> bool \<Rightarrow> bool \<Rightarrow> jsstring \<Rightarrow> world \<Rightarrow> nat \<times> world" where
  "invokeInternal e ev content force throwFailures responseListenerId w =
     (case newPromise w of
        (p, w0) \<Rightarrow>
          (case runTimeout (TimeoutCallback responseListenerId p ev) 20 w0 of
             (timeoutId, w1) \<Rightarrow>
               (let w2 = setListener responseListenerId
                           (InvokeResponse responseListenerId p timeoutId throwFailures) w1
                in case sendInternal e Invoke ev (responseListenerId @ [SP] @ content) force w2 of
                     Inl err \<Rightarrow> (p, settle p (Rejected err) w2)
                   | Inr w3 \<Rightarrow> (p, w3))))"

text \<open>
  \<open>invokeStreamInternal\<close>: the listener is set, the stream is started, and the timer is
  armed by the \<open>finally\<close> callback of the stream's promise.
\<close>

definition invokeStreamInternal ::
  "env \<Rightarrow> jsstring \<Rightarrow> jsstring \<Rightarrow> bool \<Rightarrow> bool \<Rightarrow> jsstring \<Rightarrow> jsstring \<Rightarrow> world
     \<Rightarrow> nat \<times> world" where
  "invokeStreamInternal e ev content force throwFailures responseListenerId streamId w =
     (case newPromise w of
        (p, w0) \<Rightarrow>
          (let w1 = setListener responseListenerId
                      (StreamResponse responseListenerId p throwFailures) w0
           in (p, sendStreamInternal e InvokeStream ev (responseListenerId @ [SP] @ content)
                    streamId force (Some (TimeoutCallback responseListenerId p ev)) w1)))"

definition invoke :: "env \<Rightarrow> jsstring \<Rightarrow> jsval \<Rightarrow> bool \<Rightarrow> bool \<Rightarrow> world \<Rightarrow> nat \<times> world" where
  "invoke e ev v force throwFailures w =
     (case generateListenerUid w of
        (responseListenerId, w1) \<Rightarrow>
          invokeInternal e ev (jsonStringify e v) force throwFailures responseListenerId w1)"

definition invokeStream :: "env \<Rightarrow> jsstring \<Rightarrow> jsval \<Rightarrow> bool \<Rightarrow> bool \<Rightarrow> world \<Rightarrow> nat \<times> world" where
  "invokeStream e ev v force throwFailures w =
     (case generateListenerUid w of
        (responseListenerId, w1) \<Rightarrow>
          (case generateStreamUid w1 of
             (streamId, w2) \<Rightarrow>
               invokeStreamInternal e ev (jsonStringify e v) force throwFailures
                 responseListenerId streamId w2))"

definition invokeAuto :: "env \<Rightarrow> jsstring \<Rightarrow> jsval \<Rightarrow> bool \<Rightarrow> bool \<Rightarrow> world \<Rightarrow> nat \<times> world" where
  "invokeAuto e ev v force throwFailures w =
     (case generateListenerUid w of
        (responseListenerId, w1) \<Rightarrow>
          if length (jsonStringify e v) + length responseListenerId + 1 > MAX_MESSAGE_LENGTH
          then (case generateStreamUid w1 of
                  (streamId, w2) \<Rightarrow>
                    invokeStreamInternal e ev (jsonStringify e v) force throwFailures
                      responseListenerId streamId w2)
          else invokeInternal e ev (jsonStringify e v) force throwFailures responseListenerId w1)"


section \<open>Inbound dispatch\<close>

text \<open>
  \<open>parseRawPayload\<close>. The argument is \<open>undefined\<close> (\<open>None\<close>) when the frame had no
  separator; \<open>JSON.parse(undefined)\<close> parses the text \<open>undefined\<close>, which is a
  \<open>SyntaxError\<close>. An object (not an array, not \<open>null\<close>) with the property
  \<open>__IPCFAILURE__\<close> becomes a \<open>Failure\<close> of that property's value.
\<close>

definition parseRawPayload :: "env \<Rightarrow> jsstring option \<Rightarrow> jserror + jsval" where
  "parseRawPayload e rawPayload =
     (case rawPayload of
        None \<Rightarrow> Inl SyntaxError
      | Some raw \<Rightarrow>
          (case jsonParse e raw of
             None \<Rightarrow> Inl SyntaxError
           | Some (JObj props) \<Rightarrow>
               (case map_of props IPCFAILURE of
                  Some m \<Rightarrow> Inr (Failure m)
                | None \<Rightarrow> Inr (JObj props))
           | Some v \<Rightarrow> Inr v))"

text \<open>
  Calling a listener. A callback of the application is taken to be a function of the
  payload; the two closures of the router remove their own registration, cancel the
  timer (the closure of \<open>invokeStreamInternal\<close> only if its variable \<open>timeoutId\<close> is
  set), settle the promise and return \<open>null\<close>.
\<close>

fun applyListener :: "listener \<Rightarrow> jsval \<Rightarrow> world \<Rightarrow> outcome \<times> world" where
  "applyListener (App f) v w = (f v, w)"
| "applyListener (InvokeResponse responseListenerId p timeoutId throwFailures) v w =
     (Done (Returned JNull),
      settleWith throwFailures p v (clearRun timeoutId (snd (removeListener responseListenerId w))))"
| "applyListener (StreamResponse responseListenerId p throwFailures) v w =
     (Done (Returned JNull),
      settleWith throwFailures p v
        (case streamTimeoutId w p of
           None \<Rightarrow> snd (removeListener responseListenerId w)
         | Some timeoutId \<Rightarrow> clearRun timeoutId (snd (removeListener responseListenerId w))))"

definition warn :: "logged \<Rightarrow> world \<Rightarrow> world" where
  "warn x w = w\<lparr>warnings := warnings w @ [x]\<rparr>"

text \<open>
  \<open>callListener\<close> after its \<open>await\<close>: a returned \<open>Failure\<close> and a thrown error are
  logged.
\<close>

fun afterCall :: "result \<Rightarrow> world \<Rightarrow> world" where
  "afterCall (Returned v) w = (if isFailure v then warn (WarnValue v) w else w)"
| "afterCall (Threw err) w = warn (WarnError err) w"

text \<open>
  \<open>invokeListener\<close> after its \<open>await\<close>: \<open>response\<close> is the listener's result, or
  still \<open>null\<close> if it threw; a \<open>Failure\<close> becomes an object with the one property
  \<open>__IPCFAILURE__\<close>; the response goes out through \<open>sendAuto\<close>, whose promise is
  dropped; a truthy error is logged.
\<close>

definition envelope :: "jsval \<Rightarrow> jsval" where
  "envelope v = (case v of Failure m \<Rightarrow> JObj [(IPCFAILURE, m)] | _ \<Rightarrow> v)"

fun afterInvoke :: "env \<Rightarrow> jsstring \<Rightarrow> result \<Rightarrow> world \<Rightarrow> world" where
  "afterInvoke e responseEvent (Returned v) w =
     voidPromise (sendAuto e responseEvent (envelope v) False w)"
| "afterInvoke e responseEvent (Threw err) w =
     (let w1 = voidPromise (sendAuto e responseEvent (envelope JNull) False w)
      in if truthyError err then warn (WarnError err) w1 else w1)"

text \<open>
  \<open>callListener\<close> and \<open>invokeListener\<close> are \<open>async\<close> and their promises are dropped by
  \<open>routeEvent\<close>: an exception of \<open>parseRawPayload\<close> is an unhandled rejection, and a
  listener that suspends leaves a continuation. The code after an \<open>await\<close> of a value
  that is already there runs before the host delivers anything else.
\<close>

definition callListener :: "env \<Rightarrow> listener \<Rightarrow> jsstring option \<Rightarrow> world \<Rightarrow> world" where
  "callListener e l rawPayload w =
     (case parseRawPayload e rawPayload of
        Inl err \<Rightarrow> w\<lparr>unhandledRejections := unhandledRejections w @ [err]\<rparr>
      | Inr v \<Rightarrow>
          (case applyListener l v w of
             (Done r, w1) \<Rightarrow> afterCall r w1
           | (Suspended, w1) \<Rightarrow> w1\<lparr>suspended := suspended w1 @ [CallContinuation]\<rparr>))"

definition invokeListener ::
  "env \<Rightarrow> listener \<Rightarrow> jsstring \<Rightarrow> jsstring option \<Rightarrow> world \<Rightarrow> world" where
  "invokeListener e l responseEvent rawPayload w =
     (case parseRawPayload e rawPayload of
        Inl err \<Rightarrow> w\<lparr>unhandledRejections := unhandledRejections w @ [err]\<rparr>
      | Inr v \<Rightarrow>
          (case applyListener l v w of
             (Done r, w1) \<Rightarrow> afterInvoke e responseEvent r w1
           | (Suspended, w1) \<Rightarrow>
               w1\<lparr>suspended := suspended w1 @ [InvokeContinuation responseEvent]\<rparr>))"

text \<open>
  \<open>routeEvent\<close>. \<open>rawMsg[0]\<close> of an empty message is \<open>undefined\<close> and matches no case
  of the \<open>switch\<close>. In the stream branch \<open>afterId.split\<close> is a \<open>TypeError\<close> when
  \<open>afterId\<close> is \<open>undefined\<close>, thrown before the router is changed.
\<close>

text \<open>\<open>this.pendingStreams.get(id) ?? ""\<close>\<close>

definition cachedContent :: "world \<Rightarrow> jsstring \<Rightarrow> jsstring" where
  "cachedContent w streamId = (case pendingStreams w streamId of None \<Rightarrow> [] | Some c \<Rightarrow> c)"

definition routeStream ::
  "env \<Rightarrow> listener \<Rightarrow> codeunit \<Rightarrow> jsstring \<Rightarrow> world \<Rightarrow> jserror + world" where
  "routeStream e l ipcTypeFlag message w =
     (case at (splitSpaceRest message) 1 of
        None \<Rightarrow> Inl TypeError
      | Some afterId \<Rightarrow>
          (let streamId = hd (splitSpaceRest message);
               isEndRaw = hd (splitSpaceRest afterId);
               content = at (splitSpaceRest afterId) 1;
               isEnd = (isEndRaw = str ''t'');
               fullContent = plusStr (cachedContent w streamId) content
           in if \<not> isEnd
              then Inr (w\<lparr>pendingStreams := (pendingStreams w)(streamId \<mapsto> fullContent)\<rparr>)
              else (let w1 = w\<lparr>pendingStreams := (pendingStreams w)(streamId := None)\<rparr>
                    in if ipcTypeFlag = flagChar e InvokeStream
                       then Inr (invokeListener e l (hd (splitSpaceRest fullContent))
                                   (at (splitSpaceRest fullContent) 1) w1)
                       else Inr (callListener e l (Some fullContent) w1))))"

definition routeEvent :: "env \<Rightarrow> jsstring \<Rightarrow> jsstring \<Rightarrow> world \<Rightarrow> jserror + world" where
  "routeEvent e ev rawMsg w =
     (case listeners w ev of
        None \<Rightarrow> Inr w
      | Some l \<Rightarrow>
          (case rawMsg of
             [] \<Rightarrow> Inr w
           | ipcTypeFlag # message \<Rightarrow>
               if ipcTypeFlag = flagChar e Send
               then Inr (callListener e l (Some message) w)
               else if ipcTypeFlag = flagChar e Invoke
               then Inr (invokeListener e l (hd (splitSpaceRest message))
                           (at (splitSpaceRest message) 1) w)
               else if ipcTypeFlag = flagChar e InvokeStream \<or> ipcTypeFlag = flagChar e SendStream
               then routeStream e l ipcTypeFlag message w
               else Inr w))"

definition onScriptEventRecieved :: "env \<Rightarrow> jsstring \<Rightarrow> jsstring \<Rightarrow> world \<Rightarrow> jserror + world" where
  "onScriptEventRecieved e ev message w =
     (if subscribed w then routeEvent e ev message w else Inr w)"


section \<open>The host: timers, transmissions, suspended listeners\<close>

text \<open>The timeout callback of both invoke functions.\<close>

fun runCallback :: "timerCallback \<Rightarrow> world \<Rightarrow> world" where
  "runCallback (TimeoutCallback responseListenerId p ev) w =
     settle p (Rejected (TimedOut ev)) (snd (removeListener responseListenerId w))"

text \<open>One game tick: the clock advances and the timers that are due run, oldest first.\<close>

definition tick :: "world \<Rightarrow> world" where
  "tick w =
     fold (\<lambda>t. runCallback (snd (snd t)))
       (filter (\<lambda>t. fst (snd t) \<le> now w + 1) (timers w))
       (w\<lparr>now := now w + 1, timers := filter (\<lambda>t. \<not> fst (snd t) \<le> now w + 1) (timers w)\<rparr>)"

text \<open>
  One step of transmission \<open>k\<close>: its next frame is handed to the transport; when no
  frame is left the promise of \<open>sendStreamInternal\<close> settles and the \<open>finally\<close>
  callback of \<open>invokeStreamInternal\<close> arms the timer and stores its handle in
  \<open>timeoutId\<close>.
\<close>

definition removeAt :: "nat \<Rightarrow> 'a list \<Rightarrow> 'a list" where
  "removeAt k xs = take k xs @ drop (Suc k) xs"

fun runFinally :: "timerCallback option \<Rightarrow> world \<Rightarrow> world" where
  "runFinally None w = w"
| "runFinally (Some (TimeoutCallback responseListenerId p ev)) w =
     (case runTimeout (TimeoutCallback responseListenerId p ev) 20 w of
        (timeoutId, w1) \<Rightarrow> w1\<lparr>streamTimeoutId := (streamTimeoutId w1)(p \<mapsto> timeoutId)\<rparr>)"

definition stepJob :: "nat \<Rightarrow> world \<Rightarrow> world" where
  "stepJob k w =
     (if k < length (jobs w)
      then (case jobs w ! k of
              (f # fs, fin) \<Rightarrow> w\<lparr>sent := sent w @ [f], jobs := (jobs w)[k := (fs, fin)]\<rparr>
            | ([], fin) \<Rightarrow> runFinally fin (w\<lparr>jobs := removeAt k (jobs w)\<rparr>))
      else w)"

text \<open>The promise a suspended listener returned settles with \<open>r\<close>.\<close>

definition resume :: "env \<Rightarrow> nat \<Rightarrow> result \<Rightarrow> world \<Rightarrow> world" where
  "resume e k r w =
     (if k < length (suspended w)
      then (case suspended w ! k of
              CallContinuation \<Rightarrow> afterCall r (w\<lparr>suspended := removeAt k (suspended w)\<rparr>)
            | InvokeContinuation responseEvent \<Rightarrow>
                afterInvoke e responseEvent r (w\<lparr>suspended := removeAt k (suspended w)\<rparr>))
      else w)"

text \<open>
  What the host does to a router, one event at a time. An exception that leaves
  \<open>onScriptEventRecieved\<close> ends that delivery and changes nothing.
\<close>

datatype event = Deliver jsstring jsstring | Tick | StepJob nat | Resume nat result

fun step :: "env \<Rightarrow> event \<Rightarrow> world \<Rightarrow> world" where
  "step e (Deliver ev message) w =
     (case onScriptEventRecieved e ev message w of Inl err \<Rightarrow> w | Inr w1 \<Rightarrow> w1)"
| "step e Tick w = tick w"
| "step e (StepJob k) w = stepJob k w"
| "step e (Resume k r) w = resume e k r w"

definition run :: "env \<Rightarrow> event list \<Rightarrow> world \<Rightarrow> world" where
  "run e evs w = fold (step e) evs w"

text \<open>The host delivers the given frames, in order.\<close>

definition deliveries :: "(jsstring \<times> jsstring) list \<Rightarrow> event list" where
  "deliveries frames = map (\<lambda>f. Deliver (fst f) (snd f)) frames"

section \<open>Conditions on the parameters\<close>

text \<open>The four type flags are four different characters.\<close>

definition distinctFlags :: "env \<Rightarrow> bool" where
  "distinctFlags e = distinct (map (flagChar e) [Send, Invoke, SendStream, InvokeStream])"

definition noLineTerminator :: "jsstring \<Rightarrow> bool" where
  "noLineTerminator s = list_all (\<lambda>c. \<not> lineTerminator c) s"


section \<open>Response ids in flight\<close>

text \<open>
  The callbacks that \<open>finally\<close> will run when the transmissions in progress complete.
\<close>

definition finallyCallbacks :: "world \<Rightarrow> timerCallback list" where
  "finallyCallbacks w = concat (map (\<lambda>j. case snd j of None \<Rightarrow> [] | Some cb \<Rightarrow> [cb]) (jobs w))"

text \<open>The response listener and the promise that a timeout callback refers to.\<close>

fun callbackListener :: "timerCallback \<Rightarrow> jsstring" where
  "callbackListener (TimeoutCallback r q ev) = r"

fun callbackPromise :: "timerCallback \<Rightarrow> nat" where
  "callbackPromise (TimeoutCallback r q ev) = q"

text \<open>
  A response listener id is unused in a world when nothing in the world refers to it: no
  timer and no transmission in progress carries a timeout callback for it, and no response
  listener was created for it. The handles and promise indices that the world refers to are
  ones it has handed out already, so that the timer and the promise created next are new.
\<close>

fun createdListener :: "jsstring \<Rightarrow> world \<Rightarrow> listener \<Rightarrow> bool" where
  "createdListener rid w (App f) = True"
| "createdListener rid w (InvokeResponse r q h tf) =
     (r \<noteq> rid \<and> q < length (promises w) \<and> h < timersCreated w)"
| "createdListener rid w (StreamResponse r q tf) = (r \<noteq> rid \<and> q < length (promises w))"

definition unused :: "jsstring \<Rightarrow> world \<Rightarrow> bool" where
  "unused rid w \<longleftrightarrow>
     (\<forall>t \<in> set (timers w). fst t < timersCreated w
          \<and> callbackPromise (snd (snd t)) < length (promises w)
          \<and> callbackListener (snd (snd t)) \<noteq> rid)
     \<and> (\<forall>cb \<in> set (finallyCallbacks w).
          callbackPromise cb < length (promises w) \<and> callbackListener cb \<noteq> rid)
     \<and> (\<forall>l \<in> ran (listeners w). createdListener rid w l)
     \<and> (\<forall>h \<in> ran (streamTimeoutId w). h < timersCreated w)"

text \<open>
  The state of an invoke between its call and its settlement: the response listener is
  registered under the id, the promise is pending, exactly one timer has the handle, it
  carries the timeout callback of this invoke and is not yet due, and every other listener,
  timer and transmission refers to other ids, promises and handles.
\<close>

fun foreignListener :: "jsstring \<Rightarrow> nat \<Rightarrow> nat \<Rightarrow> listener \<Rightarrow> bool" where
  "foreignListener rid p h (App f) = True"
| "foreignListener rid p h (InvokeResponse r q h' tf) = (r \<noteq> rid \<and> q \<noteq> p \<and> h' \<noteq> h)"
| "foreignListener rid p h (StreamResponse r q tf) = (r \<noteq> rid \<and> q \<noteq> p)"

definition foreignCallback :: "jsstring \<Rightarrow> nat \<Rightarrow> timerCallback \<Rightarrow> bool" where
  "foreignCallback rid p cb = (callbackListener cb \<noteq> rid \<and> callbackPromise cb \<noteq> p)"

definition pendingInvoke ::
  "jsstring \<Rightarrow> nat \<Rightarrow> nat \<Rightarrow> nat \<Rightarrow> jsstring \<Rightarrow> bool \<Rightarrow> world \<Rightarrow> bool" where
  "pendingInvoke rid p h due ev tf w \<longleftrightarrow>
     listeners w rid = Some (InvokeResponse rid p h tf)
     \<and> p < length (promises w) \<and> promises w ! p = Pending
     \<and> filter (\<lambda>t. fst t = h) (timers w) = [(h, due, TimeoutCallback rid p ev)]
     \<and> (\<forall>t \<in> set (timers w). fst t \<noteq> h \<longrightarrow> foreignCallback rid p (snd (snd t)))
     \<and> (\<forall>k l. k \<noteq> rid \<longrightarrow> listeners w k = Some l \<longrightarrow> foreignListener rid p h l)
     \<and> (\<forall>q. streamTimeoutId w q \<noteq> Some h)
     \<and> (\<forall>cb \<in> set (finallyCallbacks w). foreignCallback rid p cb)
     \<and> h < timersCreated w
     \<and> now w < due"

text \<open>A trace is quiet for an id when it delivers no script event under that id.\<close>

fun isDeliverTo :: "jsstring \<Rightarrow> event \<Rightarrow> bool" where
  "isDeliverTo rid (Deliver k m) = (k = rid)"
| "isDeliverTo rid _ = False"

definition quiet :: "jsstring \<Rightarrow> event list \<Rightarrow> bool" where
  "quiet rid es = list_all (\<lambda>x. \<not> isDeliverTo rid x) es"

text \<open>
  What every event preserves: the clock advances by the ticks, the subscription and the
  number of promises stay, a settled promise keeps its value, and an id without a listener
  stays without one. Every event but the step of a transmission also creates no timer.
\<close>

definition evolves :: "nat \<Rightarrow> world \<Rightarrow> world \<Rightarrow> bool" where
  "evolves n w w' \<longleftrightarrow>
     now w' = now w + n \<and> subscribed w' = subscribed w
     \<and> length (promises w') = length (promises w)
     \<and> (\<forall>q. promises w ! q \<noteq> Pending \<longrightarrow> promises w' ! q = promises w ! q)
     \<and> (\<forall>k. listeners w k = None \<longrightarrow> listeners w' k = None)"

definition calm :: "nat \<Rightarrow> world \<Rightarrow> world \<Rightarrow> bool" where
  "calm n w w' \<longleftrightarrow>
     evolves n w w' \<and> set (timers w') \<subseteq> set (timers w) \<and> timersCreated w' = timersCreated w"

text \<open>
  Timer handles are handed out in increasing order: a timer of a later world is a timer of
  the earlier world or has a handle that the earlier world had not handed out yet.
\<close>

definition laterTimers :: "world \<Rightarrow> world \<Rightarrow> bool" where
  "laterTimers w w' \<longleftrightarrow>
     timersCreated w \<le> timersCreated w'
     \<and> (\<forall>t \<in> set (timers w'). t \<in> set (timers w) \<or> timersCreated w \<le> fst t)"


section \<open>Examples used to instantiate the theorems\<close>

text \<open>
  One assignment of type flags, and a serializer for values without numbers whose
  strings need no escape. \<open>exampleParse\<close> inverts it on the listed values and rejects
  every other text.
\<close>

fun exampleFlag :: "IpcTypeFlag \<Rightarrow> codeunit" where
  "exampleFlag Send = 0x30"
| "exampleFlag Invoke = 0x31"
| "exampleFlag SendStream = 0x32"
| "exampleFlag InvokeStream = 0x33"

fun exampleStringify :: "jsval \<Rightarrow> jsstring" where
  "exampleStringify JNull = str ''null''"
| "exampleStringify (JBool b) = (if b then str ''true'' else str ''false'')"
| "exampleStringify (JNum n) = str ''0''"
| "exampleStringify (JStr s) = str ''\"'' @ s @ str ''\"''"
| "exampleStringify (JArr vs) = str ''[]''"
| "exampleStringify (JObj []) = str ''{}''"
| "exampleStringify (JObj ((k, v) # kvs)) =
     str ''{\"'' @ k @ str ''\":'' @ exampleStringify v @ str ''}''"
| "exampleStringify (Failure m) = str ''{\"message\":'' @ exampleStringify m @ str ''}''"

definition exampleParse :: "jsval list \<Rightarrow> jsstring \<Rightarrow> jsval option" where
  "exampleParse vs s = find (\<lambda>v. exampleStringify v = s) vs"

definition exampleEnv :: "jsval list \<Rightarrow> env" where
  "exampleEnv vs =
     \<lparr>flagChar = exampleFlag, jsonParse = exampleParse vs, jsonStringify = exampleStringify\<rparr>"

definition echo :: listener where
  "echo = App (\<lambda>v. Done (Returned v))"

text \<open>A router with uid \<open>b\<close> and the listener \<open>echo\<close> registered for \<open>ns:h\<close>.\<close>

definition handlerWorld :: world where
  "handlerWorld = afterRegister (str ''ns:h'') echo (initialWorld (str ''b''))"

text \<open>A string of 430 letters and its serialized form, 432 code units long.\<close>

definition bigValue :: jsval where
  "bigValue = JStr (replicate 430 0x61)"

definition bigText :: jsstring where
  "bigText = exampleStringify bigValue"

text \<open>
  The body of an Invoke frame whose payload is the JSON text of the three-character string
  \<open>x\<close>, U+2028, \<open>y\<close>; \<open>JSON.stringify\<close> does not escape the line separator U+2028.
\<close>

definition cutBody :: jsstring where
  "cutBody = str ''a:__0 \"x'' @ 0x2028 # str ''y\"''"

text \<open>
  Routers with uid \<open>b\<close> whose listener for \<open>ns:h\<close> returns the long string, returns a
  pending promise, or returns a \<open>Failure\<close>.
\<close>

definition bigHandlerWorld :: world where
  "bigHandlerWorld = afterRegister (str ''ns:h'') (App (\<lambda>v. Done (Returned bigValue))) (initialWorld (str ''b''))"

definition suspendingWorld :: world where
  "suspendingWorld = afterRegister (str ''ns:h'') (App (\<lambda>v. Suspended)) (initialWorld (str ''b''))"

definition failingWorld :: "jsval \<Rightarrow> world" where
  "failingWorld m =
     afterRegister (str ''ns:h'') (App (\<lambda>v. Done (Returned (Failure m)))) (initialWorld (str ''b''))"

text \<open>
  The router \<open>a\<close> right after \<open>invokeStream\<close> of \<open>null\<close> to \<open>ns:h\<close>, with response
  listener id \<open>a:__0\<close> and stream id \<open>a0\<close>.
\<close>

definition streamCaller :: world where
  "streamCaller =
     snd (invokeStreamInternal (exampleEnv [JNull]) (str ''ns:h'') (str ''null'') False False
            (str ''a:__0'') (str ''a0'') (initialWorld (str ''a'')))"

text \<open>
  The serialized envelope of \<open>Failure bigValue\<close>, 451 code units long; a router with uid
  \<open>b c\<close> whose listener for \<open>ns:h\<close> returns that \<open>Failure\<close>; and the router \<open>a\<close>
  right after \<open>invoke\<close> of \<open>null\<close> to \<open>ns:h\<close> with response listener id \<open>a:__0\<close>.
\<close>

definition bigEnvelope :: jsstring where
  "bigEnvelope = exampleStringify (JObj [(IPCFAILURE, bigValue)])"

definition spacedFailingWorld :: world where
  "spacedFailingWorld =
     afterRegister (str ''ns:h'') (App (\<lambda>v. Done (Returned (Failure bigValue))))
       (initialWorld (str ''b c''))"

definition invokeCaller :: world where
  "invokeCaller =
     snd (invokeInternal (exampleEnv [JNull, JObj [(IPCFAILURE, bigValue)]]) (str ''ns:h'')
            (str ''null'') False False (str ''a:__0'') (initialWorld (str ''a'')))"


section \<open>Registration\<close>

lemma splitOn_no_sep: "sep \<notin> set s \<Longrightarrow> splitOn sep s = [s]"
  by (induction s) auto

lemma splitOn_first:
  "sep \<notin> set ns \<Longrightarrow> splitOn sep (ns @ sep # rest) = ns # splitOn sep rest"
  by (induction ns) auto

lemma dropWhile_ne_first:
  "sep \<notin> set ns \<Longrightarrow> dropWhile (\<lambda>c. c \<noteq> sep) (ns @ sep # rest) = sep # rest"
  by (induction ns) auto

lemma takeWhile_ne_first:
  "sep \<notin> set ns \<Longrightarrow> takeWhile (\<lambda>c. c \<noteq> sep) (ns @ sep # rest) = ns"
  by (induction ns) auto

lemma takeWhile_ne_all:
  "sep \<notin> set ns \<Longrightarrow> takeWhile (\<lambda>c. c \<noteq> sep) ns = ns"
  by (induction ns) auto

text \<open>Index 1 of \<open>ev.split(":")\<close> is what stands between the first two colons.\<close>

lemma at_1_splitOn:
  assumes "sep \<in> set ev"
  shows "at (splitOn sep ev) (Suc 0)
         = Some (takeWhile (\<lambda>c. c \<noteq> sep) (tl (dropWhile (\<lambda>c. c \<noteq> sep) ev)))"
proof -
  from assms obtain ns rest where ev: "ev = ns @ sep # rest" and ns: "sep \<notin> set ns"
    by (meson split_list_first)
  have dw: "dropWhile (\<lambda>c. c \<noteq> sep) ev = sep # rest"
    using ns by (simp add: ev dropWhile_ne_first)
  show ?thesis
  proof (cases "sep \<in> set rest")
    case True
    then obtain a b where rest: "rest = a @ sep # b" and a: "sep \<notin> set a"
      by (meson split_list_first)
    have sp: "splitOn sep ev = ns # a # splitOn sep b"
      using ns a by (simp add: ev rest splitOn_first)
    have tw: "takeWhile (\<lambda>c. c \<noteq> sep) rest = a"
      using a by (simp add: rest takeWhile_ne_first)
    show ?thesis by (simp add: at_def dw sp tw)
  next
    case False
    then have sp: "splitOn sep ev = [ns, rest]"
      using ns by (simp add: ev splitOn_first splitOn_no_sep)
    have tw: "takeWhile (\<lambda>c. c \<noteq> sep) rest = rest"
      using False by (simp add: takeWhile_ne_all)
    show ?thesis by (simp add: at_def dw sp tw)
  qed
qed

lemma registerListener_eq:
  "registerListener ev cb w =
     (if listeners w ev \<noteq> None then Inl (AlreadyRegistered ev)
      else if COLON \<notin> set ev then Inl (InvalidListenerId ev)
      else if startsWith (tl (dropWhile (\<lambda>c. c \<noteq> COLON) ev)) [UNDERSCORE]
      then Inl (InvalidListenerId ev)
      else Inr (w\<lparr>listeners := (listeners w)(ev \<mapsto> cb)\<rparr>))"
proof -
  have "startsWith (takeWhile (\<lambda>c. c \<noteq> COLON) t) [UNDERSCORE] = startsWith t [UNDERSCORE]" for t
    by (cases t) (auto simp: startsWith_def COLON_def UNDERSCORE_def)
  then show ?thesis
    by (simp add: registerListener_def at_1_splitOn)
qed


text \<open>
  Claim C8. \<open>registerListener\<close> throws exactly for an id that is already registered,
  an id without a colon, and an id whose local part (what follows the first colon) begins
  with an underscore; a call that throws leaves the router as it was, and every other
  call stores the callback. \<open>removeListener\<close> returns whether the id was registered,
  removes it, and returns false when called again.
\<close>

theorem registerListener_removeListener:
  "((\<exists>err. registerListener ev cb w = Inl err) \<longleftrightarrow>
      (listeners w ev \<noteq> None \<or> COLON \<notin> set ev
       \<or> (\<exists>ns t. ev = ns @ COLON # UNDERSCORE # t \<and> COLON \<notin> set ns)))
   \<and> ((\<exists>err. registerListener ev cb w = Inl err) \<longrightarrow> afterRegister ev cb w = w)
   \<and> ((\<nexists>err. registerListener ev cb w = Inl err) \<longrightarrow>
        registerListener ev cb w = Inr (w\<lparr>listeners := (listeners w)(ev \<mapsto> cb)\<rparr>))
   \<and> fst (removeListener ev w) = (listeners w ev \<noteq> None)
   \<and> listeners (snd (removeListener ev w)) = (listeners w)(ev := None)
   \<and> removeListener ev (snd (removeListener ev w)) = (False, snd (removeListener ev w))"
proof -
  have local: "startsWith (tl (dropWhile (\<lambda>c. c \<noteq> COLON) ev)) [UNDERSCORE]
        \<longleftrightarrow> (\<exists>ns t. ev = ns @ COLON # UNDERSCORE # t \<and> COLON \<notin> set ns)"
    if "COLON \<in> set ev"
  proof
    assume sw: "startsWith (tl (dropWhile (\<lambda>c. c \<noteq> COLON) ev)) [UNDERSCORE]"
    from that obtain ns rest where ev: "ev = ns @ COLON # rest" and ns: "COLON \<notin> set ns"
      by (meson split_list_first)
    from sw ns have "startsWith rest [UNDERSCORE]"
      by (simp add: ev dropWhile_ne_first)
    then obtain t where "rest = UNDERSCORE # t"
      by (cases rest) (auto simp: startsWith_def)
    with ev ns show "\<exists>ns t. ev = ns @ COLON # UNDERSCORE # t \<and> COLON \<notin> set ns"
      by blast
  next
    assume "\<exists>ns t. ev = ns @ COLON # UNDERSCORE # t \<and> COLON \<notin> set ns"
    then show "startsWith (tl (dropWhile (\<lambda>c. c \<noteq> COLON) ev)) [UNDERSCORE]"
      by (auto simp: dropWhile_ne_first startsWith_def)
  qed
  have nocolon: "COLON \<notin> set ev \<Longrightarrow> \<not> (\<exists>ns t. ev = ns @ COLON # UNDERSCORE # t \<and> COLON \<notin> set ns)"
    by auto
  show ?thesis
    using local nocolon
    by (auto simp: registerListener_eq afterRegister_def removeListener_def)
qed

theorem registerListener_removeListener_witness:
  "(\<exists>err. registerListener (str ''ns:_x'') echo (initialWorld (str ''r'')) = Inl err)
   \<and> (\<exists>err. registerListener (str ''nsx'') echo (initialWorld (str ''r'')) = Inl err)
   \<and> (\<exists>err. registerListener (str ''ns:x'') echo
               (afterRegister (str ''ns:x'') echo (initialWorld (str ''r''))) = Inl err)
   \<and> listeners (afterRegister (str ''ns:_x'') echo (initialWorld (str ''r''))) (str ''ns:_x'') = None
   \<and> listeners (afterRegister (str ''ns:x'') echo (initialWorld (str ''r''))) (str ''ns:x'') = Some echo
   \<and> fst (removeListener (str ''ns:x'') (afterRegister (str ''ns:x'') echo (initialWorld (str ''r''))))
   \<and> \<not> fst (removeListener (str ''ns:x'') (initialWorld (str ''r'')))"
proof -
  let ?w = "initialWorld (str ''r'')"
  have h1: "\<exists>ns t. str ''ns:_x'' = ns @ COLON # UNDERSCORE # t \<and> COLON \<notin> set ns"
    by (rule exI[of _ "str ''ns''"], rule exI[of _ "str ''x''"])
       (simp add: str_def COLON_def UNDERSCORE_def)
  have h2: "COLON \<notin> set (str ''nsx'')"
    by (simp add: str_def COLON_def)
  have ok: "\<not> (\<exists>err. registerListener (str ''ns:x'') echo ?w = Inl err)"
    by (simp add: registerListener_eq initialWorld_def str_def COLON_def UNDERSCORE_def
        startsWith_def)
  have reg: "afterRegister (str ''ns:x'') echo ?w
             = ?w\<lparr>listeners := (listeners ?w)(str ''ns:x'' \<mapsto> echo)\<rparr>"
    using registerListener_removeListener[of "str ''ns:x''" echo ?w] ok
    by (simp add: afterRegister_def)
  have h3: "listeners (afterRegister (str ''ns:x'') echo ?w) (str ''ns:x'') \<noteq> None"
    by (simp add: reg)
  show ?thesis
    using registerListener_removeListener[of "str ''ns:_x''" echo ?w] h1
      registerListener_removeListener[of "str ''nsx''" echo ?w] h2
      registerListener_removeListener[of "str ''ns:x''" echo "afterRegister (str ''ns:x'') echo ?w"] h3
      registerListener_removeListener[of "str ''ns:x''" echo ?w]
    by (simp add: reg) (simp add: initialWorld_def)
qed

section \<open>Destruction\<close>

lemma destroy_twice: "destroy (destroy w) = destroy w"
  by (simp add: destroy_def)

lemma destroy_pow: "(destroy ^^ Suc n) w = destroy w"
  by (induction n) (simp_all add: destroy_twice)

text \<open>
  Claim C10. \<open>destroy\<close> is total, any number of calls equals one call, afterwards
  \<open>isValid\<close> is false, and the listener map, the stream buffers, both uid counters and
  the uid are what they were.
\<close>

theorem destroy_idempotent_narrow:
  "(destroy ^^ Suc n) w = destroy w
   \<and> isValid ((destroy ^^ Suc n) w) = False
   \<and> listeners (destroy w) = listeners w
   \<and> pendingStreams (destroy w) = pendingStreams w
   \<and> listenerUidsGenerated (destroy w) = listenerUidsGenerated w
   \<and> streamUidsGenerated (destroy w) = streamUidsGenerated w
   \<and> uid (destroy w) = uid w"
  using destroy_pow[of n w] by (simp add: destroy_def isValid_def del: funpow.simps)

theorem destroy_idempotent_narrow_witness:
  "destroy (destroy (destroy (initialWorld (str ''r'')))) = destroy (initialWorld (str ''r''))
   \<and> \<not> isValid (destroy (destroy (destroy (initialWorld (str ''r'')))))
   \<and> isValid (initialWorld (str ''r''))"
  using destroy_idempotent_narrow[of "Suc (Suc 0)" "initialWorld (str ''r'')"]
  by (simp add: isValid_def initialWorld_def destroy_def)


section \<open>Splitting at the first space\<close>

declare splitSpaceRest.simps [simp del]

lemma beforeSpace_no_space: "SP \<notin> set s \<Longrightarrow> beforeSpace s = s"
  by (simp add: beforeSpace_def takeWhile_ne_all)

lemma hd_splitSpaceRest: "hd (splitSpaceRest s) = beforeSpace s"
  by (subst splitSpaceRest.simps) (simp add: beforeSpace_no_space)

lemma at_1_splitSpaceRest:
  "at (splitSpaceRest s) (Suc 0) = (if SP \<in> set s then Some (dotStar (afterSpace s)) else None)"
  by (subst splitSpaceRest.simps) (simp add: at_def)

lemma beforeSpace_append: "SP \<notin> set a \<Longrightarrow> beforeSpace (a @ SP # b) = a"
  by (simp add: beforeSpace_def takeWhile_ne_first)

lemma afterSpace_append: "SP \<notin> set a \<Longrightarrow> afterSpace (a @ SP # b) = b"
  by (simp add: afterSpace_def dropWhile_ne_first)

lemma dotStar_all: "\<not> (\<exists>c \<in> set s. lineTerminator c) \<Longrightarrow> dotStar s = s"
  by (induction s) (auto simp: dotStar_def)

lemma dotStar_stop: "\<not> (\<exists>c \<in> set a. lineTerminator c) \<Longrightarrow> lineTerminator c \<Longrightarrow> dotStar (a @ c # b) = a"
  by (induction a) (auto simp: dotStar_def)

section \<open>Frames that break the parser\<close>

lemma handlerWorld_listeners: "listeners handlerWorld (str ''ns:h'') = Some echo"
  by (simp add: handlerWorld_def afterRegister_def registerListener_eq initialWorld_def str_def COLON_def UNDERSCORE_def startsWith_def)

text \<open>
  Claim C7. The fields of an Invoke body are split at the first space, but the payload is
  the capture \<open>(.*)\<close>, which ends at the first line terminator. For the body of the
  payload \<open>"x"\<close>, U+2028, \<open>"y"\<close> written as one JSON string, the response event id is
  \<open>a:__0\<close> and the payload handed to \<open>invokeListener\<close> is the two characters before the
  line separator, not the remainder of the body; parsing it fails, the listener is not
  called and nothing is sent.
\<close>

theorem invoke_payload_cut_at_line_separator:
  "hd (splitSpaceRest cutBody) = str ''a:__0''
   \<and> at (splitSpaceRest cutBody) 1 = Some (str ''\"x'')
   \<and> afterSpace cutBody = str ''\"x'' @ 0x2028 # str ''y\"''
   \<and> routeEvent (exampleEnv [JStr (str ''x'' @ 0x2028 # str ''y'')]) (str ''ns:h'')
        (exampleFlag Invoke # cutBody) handlerWorld
      = Inr (handlerWorld\<lparr>unhandledRejections := [SyntaxError]\<rparr>)"
proof -
  have a: "cutBody = str ''a:__0'' @ SP # (str ''\"x'' @ 0x2028 # str ''y\"'')"
    by (simp add: cutBody_def str_def SP_def)
  have nsp: "SP \<notin> set (str ''a:__0'')" by (simp add: str_def SP_def)
  have sp: "SP \<in> set cutBody" by (simp add: a)
  have b: "beforeSpace cutBody = str ''a:__0''"
    unfolding a using nsp by (rule beforeSpace_append)
  have c: "afterSpace cutBody = str ''\"x'' @ 0x2028 # str ''y\"''"
    unfolding a using nsp by (rule afterSpace_append)
  have d: "dotStar (str ''\"x'' @ 0x2028 # str ''y\"'') = str ''\"x''"
    by (simp add: dotStar_def str_def lineTerminator_def)
  have e: "handlerWorld\<lparr>unhandledRejections := unhandledRejections handlerWorld @ [SyntaxError]\<rparr> = handlerWorld\<lparr>unhandledRejections := [SyntaxError]\<rparr>"
    by (simp add: handlerWorld_def afterRegister_def registerListener_eq initialWorld_def str_def COLON_def UNDERSCORE_def startsWith_def)
  have p: "exampleParse [JStr (str ''x'' @ 0x2028 # str ''y'')] (str ''\"x'') = None"
    by (simp add: exampleParse_def str_def)
  show ?thesis
    by (simp add: hd_splitSpaceRest at_1_splitSpaceRest sp b c d routeEvent_def handlerWorld_listeners
        exampleEnv_def invokeListener_def parseRawPayload_def p e)
qed

text \<open>
  Claim C6. A frame with the SendStream flag whose body holds no space, delivered to a
  registered listener: \<open>afterId\<close> is \<open>undefined\<close> and \<open>routeEvent\<close> throws a
  \<open>TypeError\<close>.
\<close>

theorem stream_chunk_without_separator_throws:
  "routeEvent (exampleEnv []) (str ''ns:h'') (exampleFlag SendStream # str ''abc'') handlerWorld
     = Inl TypeError"
proof -
  have "SP \<notin> set (str ''abc'')" by (simp add: str_def SP_def)
  then show ?thesis
    by (simp add: routeEvent_def handlerWorld_listeners exampleEnv_def routeStream_def at_1_splitSpaceRest)
qed

section \<open>The chunks of a stream\<close>

declare splitLoop.simps [simp del]

lemma maxPadded: "maxMessageLengthWithPadding = 393"
  by (simp add: maxMessageLengthWithPadding_def MAX_MESSAGE_LENGTH_def
      STREAM_MESSAGE_PADDING_def MAX_NAMESPACE_LENGTH_def)

lemma update_last: "parts \<noteq> [] \<Longrightarrow> parts[length parts - Suc 0 := x] = butlast parts @ [x]"
  by (induction parts rule: rev_induct) (simp_all add: list_update_append)

lemma splitLoop_step:
  assumes "parts \<noteq> []"
  shows "splitLoop parts =
     (if length (last parts) \<le> maxMessageLengthWithPadding then parts
      else splitLoop (butlast parts @ [take maxMessageLengthWithPadding (last parts),
                                        drop maxMessageLengthWithPadding (last parts)]))"
  using assms by (subst splitLoop.simps) (simp add: update_last)

lemma splitLoop_snoc:
  "splitLoop (front @ [l]) =
     (if length l \<le> maxMessageLengthWithPadding then front @ [l]
      else splitLoop ((front @ [take maxMessageLengthWithPadding l])
                        @ [drop maxMessageLengthWithPadding l]))"
  using splitLoop_step[of "front @ [l]"] by simp

lemma splitLoop_props:
  "concat (splitLoop (front @ [l])) = concat front @ l
   \<and> (\<exists>rest. splitLoop (front @ [l]) = front @ rest \<and> rest \<noteq> []
        \<and> (length l > maxMessageLengthWithPadding \<longrightarrow> length rest \<ge> 2)
        \<and> (\<forall>p \<in> set rest. length p \<le> maxMessageLengthWithPadding)
        \<and> (l \<noteq> [] \<longrightarrow> (\<forall>p \<in> set rest. p \<noteq> [])))"
proof (induction "length l" arbitrary: front l rule: less_induct)
  case less
  show ?case
  proof (cases "length l \<le> maxMessageLengthWithPadding")
    case True
    then show ?thesis by (subst splitLoop_snoc, subst splitLoop_snoc) auto
  next
    case False
    let ?M = maxMessageLengthWithPadding
    have lt: "length (drop ?M l) < length l"
      using False by (simp add: maxPadded)
    note ih = less[OF lt, of "front @ [take ?M l]"]
    from ih obtain rest where
      r: "splitLoop ((front @ [take ?M l]) @ [drop ?M l]) = (front @ [take ?M l]) @ rest"
      and ne: "rest \<noteq> []"
      and len: "\<forall>p \<in> set rest. length p \<le> ?M"
      and nonempty: "drop ?M l \<noteq> [] \<longrightarrow> (\<forall>p \<in> set rest. p \<noteq> [])"
      by blast
    have eq: "splitLoop (front @ [l]) = front @ (take ?M l # rest)"
      using False r by (subst splitLoop_snoc) simp
    have c: "concat (splitLoop (front @ [l])) = concat front @ l"
      using False ih by (subst splitLoop_snoc) simp
    have d: "drop ?M l \<noteq> []" using False by simp
    have t: "take ?M l \<noteq> []" using False by (auto simp: maxPadded)
    show ?thesis
      using c eq ne len nonempty d t
      by (intro conjI exI[of _ "take ?M l # rest"]) (auto simp: Suc_le_eq)
  qed
qed

lemma splitLoop_single:
  "concat (splitLoop [s]) = s
   \<and> splitLoop [s] \<noteq> []
   \<and> (length s > maxMessageLengthWithPadding \<longrightarrow> length (splitLoop [s]) \<ge> 2)
   \<and> (\<forall>p \<in> set (splitLoop [s]). length p \<le> maxMessageLengthWithPadding)
   \<and> (s \<noteq> [] \<longrightarrow> (\<forall>p \<in> set (splitLoop [s]). p \<noteq> []))"
  using splitLoop_props[of "[]" s] by auto

lemma chunkBodies_nth:
  "i < length parts \<Longrightarrow>
     chunkBodies sid parts ! i =
       sid @ [SP] @ (if i = length parts - 1 then str ''t'' else str ''f'') @ [SP] @ parts ! i"
  by (auto simp: chunkBodies_def chunkBody_def)

lemma chunkBodies_eq:
  "chunkBodies sid parts =
     map (\<lambda>i. sid @ [SP] @ (if i = length parts - 1 then str ''t'' else str ''f'') @ [SP] @ parts ! i)
       [0..<length parts]"
  by (auto simp: chunkBodies_def chunkBody_def)

lemma stepJob_emit:
  "k < length (jobs w) \<Longrightarrow> jobs w ! k = (f # fs, fin) \<Longrightarrow>
     stepJob k w = w\<lparr>sent := sent w @ [f], jobs := (jobs w)[k := (fs, fin)]\<rparr>"
  by (simp add: stepJob_def)

lemma stepJob_drain:
  "k < length (jobs w) \<Longrightarrow> jobs w ! k = (fs, fin) \<Longrightarrow>
     (stepJob k ^^ length fs) w = w\<lparr>sent := sent w @ fs, jobs := (jobs w)[k := ([], fin)]\<rparr>"
proof (induction fs arbitrary: w)
  case Nil
  then have "(jobs w)[k := ([], fin)] = jobs w"
    by (metis list_update_id)
  then show ?case by simp
next
  case (Cons f fs)
  let ?w1 = "w\<lparr>sent := sent w @ [f], jobs := (jobs w)[k := (fs, fin)]\<rparr>"
  have s1: "stepJob k w = ?w1"
    using Cons.prems by (rule stepJob_emit)
  have "(stepJob k ^^ length fs) ?w1
        = ?w1\<lparr>sent := sent ?w1 @ fs, jobs := (jobs ?w1)[k := ([], fin)]\<rparr>"
    using Cons.prems by (intro Cons.IH) simp_all
  then show ?case
    by (simp add: funpow_swap1 s1)
qed

text \<open>
  Claim C4. A payload whose serialized form is at most 428 code units long goes out, by
  \<open>send\<close> and by \<open>sendAuto\<close>, as exactly one frame. A longer one is queued by
  \<open>sendAuto\<close> as a stream of at least two chunk frames, emitted in order by the steps of
  the transmission; every fragment is at most 428 - 35 code units long, the fragments
  concatenated are the serialized payload, the last frame carries \<open>t\<close> and all others
  \<open>f\<close>. The messages of \<open>streamScriptEvent\<close> are cut and flagged the same way.
\<close>

theorem sendAuto_frames:
  "(length (jsonStringify e v) \<le> MAX_MESSAGE_LENGTH \<longrightarrow>
      sendAuto e ev v force w
        = (None, w\<lparr>sent := sent w @ [(ev, flagChar e Send # jsonStringify e v)]\<rparr>)
      \<and> send e ev v force w
        = Inr (w\<lparr>sent := sent w @ [(ev, flagChar e Send # jsonStringify e v)]\<rparr>))
   \<and> (length (jsonStringify e v) > MAX_MESSAGE_LENGTH \<longrightarrow>
      (\<exists>parts.
         2 \<le> length parts
         \<and> concat parts = jsonStringify e v
         \<and> (\<forall>p \<in> set parts. length p \<le> MAX_MESSAGE_LENGTH - STREAM_MESSAGE_PADDING)
         \<and> (let frames =
                 map (\<lambda>i. (ev, flagChar e SendStream # fst (generateStreamUid w) @ [SP]
                                @ (if i = length parts - 1 then str ''t'' else str ''f'')
                                @ [SP] @ parts ! i))
                   [0..<length parts]
             in fst (sendAuto e ev v force w) = None
                \<and> snd (sendAuto e ev v force w)
                    = w\<lparr>streamUidsGenerated := streamUidsGenerated w + 1,
                        jobs := jobs w @ [(frames, None)]\<rparr>
                \<and> sent ((stepJob (length (jobs w)) ^^ length parts) (snd (sendAuto e ev v force w)))
                    = sent w @ frames)))
   \<and> (force \<or> length namespace \<le> MAX_NAMESPACE_LENGTH \<longrightarrow>
      (\<exists>parts.
         concat parts = jsonStringify e v
         \<and> (\<forall>p \<in> set parts. length p \<le> MAX_MESSAGE_LENGTH - STREAM_MESSAGE_PADDING)
         \<and> (length (jsonStringify e v) > MAX_MESSAGE_LENGTH \<longrightarrow> 2 \<le> length parts)
         \<and> streamScriptEvent e ev namespace v force streamCount
             = Inr (map (\<lambda>i. (ev, (namespace @ toStringRadix 10 streamCount) @ [SP]
                                   @ (if i = length parts - 1 then str ''t'' else str ''f'')
                                   @ [SP] @ parts ! i))
                      [0..<length parts],
                    streamCount + 1)))"
proof (intro conjI impI)
  assume "length (jsonStringify e v) \<le> MAX_MESSAGE_LENGTH"
  then show "sendAuto e ev v force w
        = (None, w\<lparr>sent := sent w @ [(ev, flagChar e Send # jsonStringify e v)]\<rparr>)"
    and "send e ev v force w
        = Inr (w\<lparr>sent := sent w @ [(ev, flagChar e Send # jsonStringify e v)]\<rparr>)"
    by (simp_all add: sendAuto_def send_def sendInternal_def)
next
  let ?s = "jsonStringify e v"
  let ?parts = "splitLoop [?s]"
  assume big: "length ?s > MAX_MESSAGE_LENGTH"
  then have big': "length ?s > maxMessageLengthWithPadding"
    by (simp add: maxPadded MAX_MESSAGE_LENGTH_def)
  have M: "MAX_MESSAGE_LENGTH - STREAM_MESSAGE_PADDING = maxMessageLengthWithPadding"
    by (simp add: maxMessageLengthWithPadding_def)
  let ?frames = "map (\<lambda>i. (ev, flagChar e SendStream # fst (generateStreamUid w) @ [SP]
                                @ (if i = length ?parts - 1 then str ''t'' else str ''f'')
                                @ [SP] @ ?parts ! i))
                   [0..<length ?parts]"
  have snd_eq: "snd (sendAuto e ev v force w)
        = w\<lparr>streamUidsGenerated := streamUidsGenerated w + 1, jobs := jobs w @ [(?frames, None)]\<rparr>"
    using big
    by (simp add: sendAuto_def generateStreamUid_def sendStreamInternal_def streamFrames_def
        chunkBodies_eq comp_def)
  have fst_eq: "fst (sendAuto e ev v force w) = None"
    using big by (simp add: sendAuto_def generateStreamUid_def)
  let ?w1 = "w\<lparr>streamUidsGenerated := streamUidsGenerated w + 1, jobs := jobs w @ [(?frames, None)]\<rparr>"
  have "(stepJob (length (jobs w)) ^^ length ?frames) ?w1
        = ?w1\<lparr>sent := sent ?w1 @ ?frames, jobs := (jobs ?w1)[length (jobs w) := ([], None)]\<rparr>"
    by (rule stepJob_drain) simp_all
  then have drain: "sent ((stepJob (length (jobs w)) ^^ length ?parts) (snd (sendAuto e ev v force w)))
        = sent w @ ?frames"
    by (simp add: snd_eq)
  show "\<exists>parts.
         2 \<le> length parts
         \<and> concat parts = jsonStringify e v
         \<and> (\<forall>p \<in> set parts. length p \<le> MAX_MESSAGE_LENGTH - STREAM_MESSAGE_PADDING)
         \<and> (let frames =
                 map (\<lambda>i. (ev, flagChar e SendStream # fst (generateStreamUid w) @ [SP]
                                @ (if i = length parts - 1 then str ''t'' else str ''f'')
                                @ [SP] @ parts ! i))
                   [0..<length parts]
             in fst (sendAuto e ev v force w) = None
                \<and> snd (sendAuto e ev v force w)
                    = w\<lparr>streamUidsGenerated := streamUidsGenerated w + 1,
                        jobs := jobs w @ [(frames, None)]\<rparr>
                \<and> sent ((stepJob (length (jobs w)) ^^ length parts) (snd (sendAuto e ev v force w)))
                    = sent w @ frames)"
    apply (rule exI[of _ ?parts])
    unfolding Let_def M
    using splitLoop_single[of ?s] big' snd_eq fst_eq drain
    by blast
next
  let ?s = "jsonStringify e v"
  let ?parts = "splitLoop [?s]"
  assume ok: "force \<or> length namespace \<le> MAX_NAMESPACE_LENGTH"
  have M: "MAX_MESSAGE_LENGTH - STREAM_MESSAGE_PADDING = maxMessageLengthWithPadding"
    by (simp add: maxMessageLengthWithPadding_def)
  have big': "length ?s > MAX_MESSAGE_LENGTH \<Longrightarrow> length ?s > maxMessageLengthWithPadding"
    by (simp add: maxPadded MAX_MESSAGE_LENGTH_def)
  have sse: "streamScriptEvent e ev namespace v force streamCount
             = Inr (map (\<lambda>i. (ev, (namespace @ toStringRadix 10 streamCount) @ [SP]
                                   @ (if i = length ?parts - 1 then str ''t'' else str ''f'')
                                   @ [SP] @ ?parts ! i))
                      [0..<length ?parts],
                    streamCount + 1)"
    using ok by (auto simp: streamScriptEvent_def chunkBodies_eq comp_def)
  show "\<exists>parts.
         concat parts = jsonStringify e v
         \<and> (\<forall>p \<in> set parts. length p \<le> MAX_MESSAGE_LENGTH - STREAM_MESSAGE_PADDING)
         \<and> (length (jsonStringify e v) > MAX_MESSAGE_LENGTH \<longrightarrow> 2 \<le> length parts)
         \<and> streamScriptEvent e ev namespace v force streamCount
             = Inr (map (\<lambda>i. (ev, (namespace @ toStringRadix 10 streamCount) @ [SP]
                                   @ (if i = length parts - 1 then str ''t'' else str ''f'')
                                   @ [SP] @ parts ! i))
                      [0..<length parts],
                    streamCount + 1)"
    apply (rule exI[of _ ?parts])
    unfolding M
    using splitLoop_single[of ?s] big' sse
    by blast
qed

section \<open>Reassembly\<close>

lemma dotStar_id: "noLineTerminator s \<Longrightarrow> dotStar s = s"
  by (induction s) (auto simp: dotStar_def noLineTerminator_def)

lemma noLT_append [simp]: "noLineTerminator (a @ b) = (noLineTerminator a \<and> noLineTerminator b)"
  by (simp add: noLineTerminator_def)

lemma noLT_Cons [simp]: "noLineTerminator (c # b) = (\<not> lineTerminator c \<and> noLineTerminator b)"
  by (simp add: noLineTerminator_def)

lemma noLT_Nil [simp]: "noLineTerminator []"
  by (simp add: noLineTerminator_def)

lemma noLT_concat: "noLineTerminator (concat ps) = (\<forall>p \<in> set ps. noLineTerminator p)"
  by (induction ps) auto

lemma SP_not_LT [simp]: "\<not> lineTerminator SP"
  by (simp add: lineTerminator_def SP_def)

text \<open>What \<open>routeEvent\<close> reads from a chunk with stream id \<open>sid\<close>.\<close>



text \<open>What \<open>routeEvent\<close> reads from a chunk with stream id \<open>sid\<close>.\<close>

lemma split_chunk:
  assumes "SP \<notin> set sid" and "SP \<notin> set tf" and "noLineTerminator tf" and "noLineTerminator part"
  shows "hd (splitSpaceRest (sid @ [SP] @ tf @ [SP] @ part)) = sid"
    and "at (splitSpaceRest (sid @ [SP] @ tf @ [SP] @ part)) (Suc 0) = Some (tf @ [SP] @ part)"
    and "hd (splitSpaceRest (tf @ [SP] @ part)) = tf"
    and "at (splitSpaceRest (tf @ [SP] @ part)) (Suc 0) = Some part"
  using assms
  by (simp_all add: hd_splitSpaceRest at_1_splitSpaceRest beforeSpace_append afterSpace_append
      dotStar_id)

lemma routeStream_chunk:
  assumes "SP \<notin> set sid" and "noLineTerminator part"
  shows "routeStream e l fl (sid @ SP # str ''f'' @ SP # part) w
         = Inr (w\<lparr>pendingStreams := (pendingStreams w)(sid \<mapsto> cachedContent w sid @ part)\<rparr>)"
    and "routeStream e l fl (sid @ SP # str ''t'' @ SP # part) w
         = (if fl = flagChar e InvokeStream
            then Inr (invokeListener e l (hd (splitSpaceRest (cachedContent w sid @ part)))
                        (at (splitSpaceRest (cachedContent w sid @ part)) (Suc 0))
                        (w\<lparr>pendingStreams := (pendingStreams w)(sid := None)\<rparr>))
            else Inr (callListener e l (Some (cachedContent w sid @ part))
                        (w\<lparr>pendingStreams := (pendingStreams w)(sid := None)\<rparr>)))"
proof -
  have f: "SP \<notin> set (str ''f'')" "noLineTerminator (str ''f'')" "str ''f'' \<noteq> str ''t''"
    and t: "SP \<notin> set (str ''t'')" "noLineTerminator (str ''t'')"
    by (simp_all add: str_def SP_def lineTerminator_def)
  note sf = split_chunk[OF assms(1) f(1) f(2) assms(2), simplified]
  note st = split_chunk[OF assms(1) t(1) t(2) assms(2), simplified]
  show "routeStream e l fl (sid @ SP # str ''f'' @ SP # part) w
         = Inr (w\<lparr>pendingStreams := (pendingStreams w)(sid \<mapsto> cachedContent w sid @ part)\<rparr>)"
    unfolding routeStream_def cachedContent_def[symmetric] using f(3) by (simp add: sf plusStr_def)
  show "routeStream e l fl (sid @ SP # str ''t'' @ SP # part) w
         = (if fl = flagChar e InvokeStream
            then Inr (invokeListener e l (hd (splitSpaceRest (cachedContent w sid @ part)))
                        (at (splitSpaceRest (cachedContent w sid @ part)) (Suc 0))
                        (w\<lparr>pendingStreams := (pendingStreams w)(sid := None)\<rparr>))
            else Inr (callListener e l (Some (cachedContent w sid @ part))
                        (w\<lparr>pendingStreams := (pendingStreams w)(sid := None)\<rparr>)))"
    unfolding routeStream_def cachedContent_def[symmetric] by (simp add: st plusStr_def Let_def)
qed

lemma chunkBodies_Cons:
  "chunkBodies sid (p # ps) =
     (if ps = [] then [sid @ [SP] @ str ''t'' @ [SP] @ p]
      else (sid @ [SP] @ str ''f'' @ [SP] @ p) # chunkBodies sid ps)"
proof (cases "ps = []")
  case True
  then show ?thesis by (simp add: chunkBodies_def chunkBody_def)
next
  case False
  have "map (\<lambda>i. chunkBody sid (length ps \<le> i) ((p # ps) ! i)) [0..<Suc (length ps)]
        = chunkBody sid (length ps \<le> 0) p
          # map (\<lambda>i. chunkBody sid (length ps \<le> Suc i) (ps ! i)) [0..<length ps]"
    by (simp add: map_upt_Suc del: upt_Suc)
  moreover have "(length ps \<le> Suc i) = (length ps - 1 \<le> i)" if "i < length ps" for i
    using that by arith
  then have "map (\<lambda>i. chunkBody sid (length ps \<le> Suc i) (ps ! i)) [0..<length ps]
        = map (\<lambda>i. chunkBody sid (length ps - 1 \<le> i) (ps ! i)) [0..<length ps]"
    by (intro map_cong) auto
  ultimately show ?thesis
    using False by (simp add: chunkBodies_def chunkBody_def del: upt_Suc)
qed

lemma length_chunkBodies [simp]: "length (chunkBodies sid parts) = length parts"
  by (simp add: chunkBodies_def)

lemma chunkBodies_Nil [simp]: "chunkBodies sid [] = []"
  by (simp add: chunkBodies_def)

lemma cached_upd [simp]:
  "cachedContent (w\<lparr>pendingStreams := (pendingStreams w)(sid \<mapsto> c)\<rparr>) sid = c"
  by (simp add: cachedContent_def)

lemma routeEvent_stream:
  assumes "listeners w ev = Some l"
    and "fl = flagChar e SendStream \<or> fl = flagChar e InvokeStream"
    and "fl \<noteq> flagChar e Send" and "fl \<noteq> flagChar e Invoke"
  shows "routeEvent e ev (fl # message) w = routeStream e l fl message w"
  using assms by (auto simp: routeEvent_def)

lemma reassemble_prefix:
  assumes "listeners w ev = Some l" and "subscribed w"
    and "fl = flagChar e SendStream \<or> fl = flagChar e InvokeStream"
    and "fl \<noteq> flagChar e Send" and "fl \<noteq> flagChar e Invoke"
    and "SP \<notin> set sid" and "\<forall>p \<in> set parts. noLineTerminator p"
    and "0 < k" and "k < length parts"
  shows "run e (deliveries (take k (map (\<lambda>b. (ev, fl # b)) (chunkBodies sid parts)))) w
         = w\<lparr>pendingStreams := (pendingStreams w)(sid \<mapsto> cachedContent w sid @ concat (take k parts))\<rparr>"
  using assms
proof (induction parts arbitrary: w k)
  case Nil
  then show ?case by simp
next
  case (Cons p ps)
  from Cons.prems have ps: "ps \<noteq> []" by auto
  let ?w1 = "w\<lparr>pendingStreams := (pendingStreams w)(sid \<mapsto> cachedContent w sid @ p)\<rparr>"
  have first: "step e (Deliver ev (fl # sid @ SP # str ''f'' @ SP # p)) w = ?w1"
    using Cons.prems
    by (simp add: onScriptEventRecieved_def routeEvent_stream routeStream_chunk
       )
  obtain k' where k: "k = Suc k'" using Cons.prems by (cases k) auto
  show ?case
  proof (cases k')
    case 0
    then show ?thesis
      using ps first by (simp add: k chunkBodies_Cons run_def deliveries_def fun_upd_def[symmetric])
  next
    case (Suc j)
    have ih: "run e (deliveries (take k' (map (\<lambda>b. (ev, fl # b)) (chunkBodies sid ps)))) ?w1
         = ?w1\<lparr>pendingStreams := (pendingStreams ?w1)(sid \<mapsto> cachedContent ?w1 sid @ concat (take k' ps))\<rparr>"
      using Cons.prems Suc k by (intro Cons.IH) auto
    show ?thesis
      using ps first ih
      by (simp add: k chunkBodies_Cons run_def deliveries_def fun_upd_def[symmetric])
  qed
qed

lemma reassemble_all:
  assumes "listeners w ev = Some l" and "subscribed w"
    and "fl = flagChar e SendStream \<or> fl = flagChar e InvokeStream"
    and "fl \<noteq> flagChar e Send" and "fl \<noteq> flagChar e Invoke"
    and "SP \<notin> set sid" and "\<forall>p \<in> set parts. noLineTerminator p"
    and "parts \<noteq> []"
  shows "run e (deliveries (map (\<lambda>b. (ev, fl # b)) (chunkBodies sid parts))) w
         = (let full = cachedContent w sid @ concat parts;
                w1 = w\<lparr>pendingStreams := (pendingStreams w)(sid := None)\<rparr>
            in if fl = flagChar e InvokeStream
               then invokeListener e l (hd (splitSpaceRest full)) (at (splitSpaceRest full) (Suc 0)) w1
               else callListener e l (Some full) w1)"
  using assms
proof (induction parts arbitrary: w)
  case Nil
  then show ?case by simp
next
  case (Cons p ps)
  show ?case
  proof (cases "ps = []")
    case True
    then show ?thesis
      using Cons.prems
      by (simp add: chunkBodies_Cons run_def deliveries_def onScriptEventRecieved_def
          routeEvent_stream routeStream_chunk Let_def fun_upd_def[symmetric])
  next
    case False
    let ?w1 = "w\<lparr>pendingStreams := (pendingStreams w)(sid \<mapsto> cachedContent w sid @ p)\<rparr>"
    have first: "step e (Deliver ev (fl # sid @ SP # str ''f'' @ SP # p)) w = ?w1"
      using Cons.prems
      by (simp add: onScriptEventRecieved_def routeEvent_stream routeStream_chunk
         )
    have ih: "run e (deliveries (map (\<lambda>b. (ev, fl # b)) (chunkBodies sid ps))) ?w1
         = (let full = cachedContent ?w1 sid @ concat ps;
                w1 = ?w1\<lparr>pendingStreams := (pendingStreams ?w1)(sid := None)\<rparr>
            in if fl = flagChar e InvokeStream
               then invokeListener e l (hd (splitSpaceRest full)) (at (splitSpaceRest full) (Suc 0)) w1
               else callListener e l (Some full) w1)"
      using Cons.prems False by (intro Cons.IH) auto
    show ?thesis
      using False first ih
      by (simp add: chunkBodies_Cons run_def deliveries_def Let_def fun_upd_def[symmetric]
         ) 
  qed
qed


lemma noLT_take: "noLineTerminator s \<Longrightarrow> noLineTerminator (take n s)"
  by (metis append_take_drop_id noLT_append)

lemma noLT_drop: "noLineTerminator s \<Longrightarrow> noLineTerminator (drop n s)"
  by (metis append_take_drop_id noLT_append)

lemma noLT_parts:
  assumes "noLineTerminator s"
  shows "\<forall>p \<in> set (splitLoop [s]). noLineTerminator p"
proof -
  have "concat (splitLoop [s]) = s" using splitLoop_single[of s] by simp
  then show ?thesis using assms noLT_concat[of "splitLoop [s]"] by simp
qed

lemma distinctFlags_iff:
  "distinctFlags e \<longleftrightarrow>
     flagChar e Send \<noteq> flagChar e Invoke \<and> flagChar e Send \<noteq> flagChar e SendStream
     \<and> flagChar e Send \<noteq> flagChar e InvokeStream \<and> flagChar e Invoke \<noteq> flagChar e SendStream
     \<and> flagChar e Invoke \<noteq> flagChar e InvokeStream
     \<and> flagChar e SendStream \<noteq> flagChar e InvokeStream"
  by (auto simp: distinctFlags_def)

text \<open>
  Claim C1, amended. The chunk frames of a content without line terminators, under a
  stream id without a space, delivered in order to a subscribed router that has a listener
  for the event and no buffer under that id: after each frame but the last the router has
  only the buffer under the stream id, holding the fragments so far; after the last frame
  the buffer is gone and the listener has been dispatched once, with exactly the content
  (by \<open>callListener\<close> for a SendStream, by \<open>invokeListener\<close> for an InvokeStream).
\<close>

theorem stream_reassembly:
  assumes "listeners w ev = Some l" and "subscribed w" and "distinctFlags e"
    and "SP \<notin> set sid" and "noLineTerminator s" and "pendingStreams w sid = None"
  shows "(\<forall>k. 0 < k \<and> k < length (streamFrames e SendStream ev sid s) \<longrightarrow>
            run e (deliveries (take k (streamFrames e SendStream ev sid s))) w
              = w\<lparr>pendingStreams := (pendingStreams w)(sid \<mapsto> concat (take k (splitLoop [s])))\<rparr>)
         \<and> run e (deliveries (streamFrames e SendStream ev sid s)) w
              = callListener e l (Some s) w
         \<and> run e (deliveries (streamFrames e InvokeStream ev sid s)) w
              = invokeListener e l (hd (splitSpaceRest s)) (at (splitSpaceRest s) 1) w"
proof -
  let ?parts = "splitLoop [s]"
  have parts: "\<forall>p \<in> set ?parts. noLineTerminator p" "?parts \<noteq> []" "concat ?parts = s"
    using noLT_parts[OF assms(5)] splitLoop_single[of s] by simp_all
  have c0: "cachedContent w sid = []"
    using assms(6) by (simp add: cachedContent_def)
  have w0: "w\<lparr>pendingStreams := (pendingStreams w)(sid := None)\<rparr> = w"
    using assms(6) by (simp add: fun_upd_idem)
  have fl: "flagChar e SendStream \<noteq> flagChar e Send" "flagChar e SendStream \<noteq> flagChar e Invoke"
    "flagChar e InvokeStream \<noteq> flagChar e Send" "flagChar e InvokeStream \<noteq> flagChar e Invoke"
    "flagChar e SendStream \<noteq> flagChar e InvokeStream"
    using assms(3) by (auto simp: distinctFlags_iff)
  have len: "length (streamFrames e SendStream ev sid s) = length ?parts"
    by (simp add: streamFrames_def chunkBodies_def)
  have pre: "run e (deliveries (take k (streamFrames e SendStream ev sid s))) w
              = w\<lparr>pendingStreams := (pendingStreams w)(sid \<mapsto> concat (take k ?parts))\<rparr>"
    if "0 < k" "k < length (streamFrames e SendStream ev sid s)" for k
    using reassemble_prefix[where k=k and fl="flagChar e SendStream" and e=e,
        OF assms(1,2) _ fl(1,2) assms(4) parts(1)]
      that c0 by (simp add: streamFrames_def len)
  have full: "run e (deliveries (streamFrames e SendStream ev sid s)) w = callListener e l (Some s) w"
    using reassemble_all[where fl="flagChar e SendStream" and e=e,
        OF assms(1,2) _ fl(1,2) assms(4) parts(1,2)]
      fl(5) c0 w0 parts(3) by (simp add: streamFrames_def Let_def)
  have fulli: "run e (deliveries (streamFrames e InvokeStream ev sid s)) w
              = invokeListener e l (hd (splitSpaceRest s)) (at (splitSpaceRest s) 1) w"
    using reassemble_all[where fl="flagChar e InvokeStream" and e=e,
        OF assms(1,2) _ fl(3,4) assms(4) parts(1,2)]
      c0 w0 parts(3) by (simp add: streamFrames_def Let_def)
  show ?thesis using pre full fulli by blast
qed


declare toStringRadix.simps [simp del]

lemma splitLoop_two:
  assumes "maxMessageLengthWithPadding < length s" and "length s \<le> 2 * maxMessageLengthWithPadding"
  shows "splitLoop [s] = [take maxMessageLengthWithPadding s, drop maxMessageLengthWithPadding s]"
proof -
  have "splitLoop ([] @ [s])
        = splitLoop (([] @ [take maxMessageLengthWithPadding s]) @ [drop maxMessageLengthWithPadding s])"
    using assms(1) by (subst splitLoop_snoc) simp
  also have "\<dots> = ([] @ [take maxMessageLengthWithPadding s]) @ [drop maxMessageLengthWithPadding s]"
  proof -
    have "length (drop maxMessageLengthWithPadding s) \<le> maxMessageLengthWithPadding"
      using assms(2) by simp
    then show ?thesis by (subst splitLoop_snoc) (simp only: if_True)
  qed
  finally show ?thesis by simp
qed

lemma bigText_facts:
  "length bigText = 432" "noLineTerminator bigText"
  "splitLoop [bigText] = [take 393 bigText, drop 393 bigText]"
proof -
  show len: "length bigText = 432"
    by (simp add: bigText_def bigValue_def str_def)
  show "noLineTerminator bigText"
    by (simp add: bigText_def bigValue_def str_def noLineTerminator_def lineTerminator_def
        list_all_iff)
  show "splitLoop [bigText] = [take 393 bigText, drop 393 bigText]"
    using splitLoop_two[of bigText] len by (simp add: maxPadded)
qed

lemma handlerWorld_eq:
  "handlerWorld = (initialWorld (str ''b''))\<lparr>listeners := [str ''ns:h'' \<mapsto> echo]\<rparr>"
  by (simp add: handlerWorld_def afterRegister_def registerListener_eq initialWorld_def str_def
      COLON_def UNDERSCORE_def startsWith_def)

lemma handlerWorld_fields:
  "listeners handlerWorld (str ''ns:h'') = Some echo" "subscribed handlerWorld"
  "pendingStreams handlerWorld = Map.empty"
  by (simp_all add: handlerWorld_eq initialWorld_def)

text \<open>A chunk whose stream id holds a space: what stands before the space is taken for
  the id, and the chunk is never terminal.\<close>

lemma routeStream_spaced_id:
  assumes "SP \<notin> set a" and "SP \<notin> set b" and "b \<noteq> str ''t''"
    and "noLineTerminator b" and "noLineTerminator tf" and "noLineTerminator part"
  shows "routeStream e l fl (a @ SP # b @ SP # tf @ SP # part) w
         = Inr (w\<lparr>pendingStreams := (pendingStreams w)(a \<mapsto> cachedContent w a @ tf @ SP # part)\<rparr>)"
proof -
  have 1: "hd (splitSpaceRest (a @ SP # b @ SP # tf @ SP # part)) = a"
    using assms(1) by (simp add: hd_splitSpaceRest beforeSpace_append)
  have 2: "at (splitSpaceRest (a @ SP # b @ SP # tf @ SP # part)) (Suc 0)
           = Some (b @ SP # tf @ SP # part)"
    using assms by (simp add: at_1_splitSpaceRest afterSpace_append dotStar_id)
  have 3: "hd (splitSpaceRest (b @ SP # tf @ SP # part)) = b"
    using assms(2) by (simp add: hd_splitSpaceRest beforeSpace_append)
  have 4: "at (splitSpaceRest (b @ SP # tf @ SP # part)) (Suc 0) = Some (tf @ SP # part)"
    using assms by (simp add: at_1_splitSpaceRest afterSpace_append dotStar_id)
  show ?thesis
    unfolding routeStream_def cachedContent_def[symmetric]
    using assms(3) by (simp add: 1 2 3 4 plusStr_def)
qed

text \<open>
  Claim C1 as stated fails for a router whose uid holds a space: the stream id of the
  router \<open>a b\<close> is \<open>a b0\<close>, the receiving router files both chunks under \<open>a\<close>,
  flags included, and never calls the listener.
\<close>

theorem stream_reassembly_counterexample:
  "fst (generateStreamUid (initialWorld (str ''a b''))) = str ''a b0''
   \<and> MAX_MESSAGE_LENGTH < length bigText
   \<and> run (exampleEnv [bigValue])
        (deliveries (streamFrames (exampleEnv [bigValue]) SendStream (str ''ns:h'') (str ''a b0'')
           bigText))
        handlerWorld
      = handlerWorld\<lparr>pendingStreams :=
          [str ''a'' \<mapsto> str ''f '' @ take 393 bigText @ str ''t '' @ drop 393 bigText]\<rparr>
   \<and> run (exampleEnv [bigValue])
        (deliveries (streamFrames (exampleEnv [bigValue]) SendStream (str ''ns:h'') (str ''a b0'')
           bigText))
        handlerWorld
      \<noteq> callListener (exampleEnv [bigValue]) echo (Some bigText) handlerWorld"
proof -
  let ?e = "exampleEnv [bigValue]"
  let ?p1 = "take 393 bigText" and ?p2 = "drop 393 bigText"
  have uid: "fst (generateStreamUid (initialWorld (str ''a b''))) = str ''a b0''"
    by (simp add: generateStreamUid_def initialWorld_def str_def digitChar_def
        toStringRadix.simps[of 36 0])
  have big: "MAX_MESSAGE_LENGTH < length bigText"
    by (simp add: bigText_facts MAX_MESSAGE_LENGTH_def)
  have sid: "str ''a b0'' = str ''a'' @ SP # str ''b0''"
    by (simp add: str_def SP_def)
  have a: "SP \<notin> set (str ''a'')" "SP \<notin> set (str ''b0'')" "str ''b0'' \<noteq> str ''t''"
    "noLineTerminator (str ''b0'')" "noLineTerminator (str ''f'')" "noLineTerminator (str ''t'')"
    by (simp_all add: str_def SP_def lineTerminator_def)
  have p: "noLineTerminator ?p1" "noLineTerminator ?p2"
    using bigText_facts(2) by (simp_all add: noLT_take noLT_drop)
  have frames: "streamFrames ?e SendStream (str ''ns:h'') (str ''a b0'') bigText
      = [(str ''ns:h'', 0x32 # str ''a'' @ SP # str ''b0'' @ SP # str ''f'' @ SP # ?p1),
         (str ''ns:h'', 0x32 # str ''a'' @ SP # str ''b0'' @ SP # str ''t'' @ SP # ?p2)]"
    by (simp add: streamFrames_def bigText_facts(3) chunkBodies_Cons exampleEnv_def sid)
  let ?w1 = "handlerWorld\<lparr>pendingStreams := [str ''a'' \<mapsto> str ''f'' @ SP # ?p1]\<rparr>"
  have r1: "routeEvent ?e (str ''ns:h'') (0x32 # str ''a'' @ SP # str ''b0'' @ SP # str ''f'' @ SP # ?p1)
              handlerWorld = Inr ?w1"
    using routeStream_spaced_id[OF a(1,2,3,4) a(5) p(1), of ?e echo "0x32" handlerWorld]
    by (simp add: routeEvent_def handlerWorld_fields exampleEnv_def cachedContent_def)
  let ?w2 = "handlerWorld\<lparr>pendingStreams :=
               [str ''a'' \<mapsto> (str ''f'' @ SP # ?p1) @ str ''t'' @ SP # ?p2]\<rparr>"
  have r2: "routeEvent ?e (str ''ns:h'') (0x32 # str ''a'' @ SP # str ''b0'' @ SP # str ''t'' @ SP # ?p2)
              ?w1 = Inr ?w2"
    using routeStream_spaced_id[OF a(1,2,3,4) a(6) p(2), of ?e echo "0x32" ?w1]
    by (simp add: routeEvent_def handlerWorld_fields exampleEnv_def cachedContent_def)
  have x: "(str ''f'' @ SP # ?p1) @ str ''t'' @ SP # ?p2
           = str ''f '' @ take 393 bigText @ str ''t '' @ drop 393 bigText"
    by (simp add: str_def SP_def)
  have run: "run ?e (deliveries (streamFrames ?e SendStream (str ''ns:h'') (str ''a b0'') bigText))
               handlerWorld
             = handlerWorld\<lparr>pendingStreams :=
                 [str ''a'' \<mapsto> str ''f '' @ take 393 bigText @ str ''t '' @ drop 393 bigText]\<rparr>"
    unfolding frames x[symmetric]
    by (simp add: run_def deliveries_def onScriptEventRecieved_def handlerWorld_fields r1 r2)
  have parse: "exampleParse [bigValue] bigText = Some bigValue"
    by (simp add: exampleParse_def bigText_def)
  have "parseRawPayload ?e (Some bigText) = Inr bigValue"
    unfolding parseRawPayload_def by (simp add: exampleEnv_def parse) (simp add: bigValue_def)
  then have call: "callListener ?e echo (Some bigText) handlerWorld = handlerWorld"
    by (simp add: callListener_def echo_def bigValue_def)
  have "pendingStreams (handlerWorld\<lparr>pendingStreams :=
          [str ''a'' \<mapsto> str ''f '' @ take 393 bigText @ str ''t '' @ drop 393 bigText]\<rparr>) (str ''a'')
        \<noteq> pendingStreams handlerWorld (str ''a'')"
    by (simp add: handlerWorld_fields)
  then have ne: "handlerWorld\<lparr>pendingStreams :=
          [str ''a'' \<mapsto> str ''f '' @ take 393 bigText @ str ''t '' @ drop 393 bigText]\<rparr>
        \<noteq> handlerWorld"
    by metis
  show ?thesis
    using uid big run call ne by simp
qed

theorem stream_reassembly_witness:
  "run (exampleEnv [bigValue])
     (deliveries (streamFrames (exampleEnv [bigValue]) SendStream (str ''ns:h'')
        (fst (generateStreamUid (initialWorld (str ''a'')))) bigText))
     handlerWorld
   = callListener (exampleEnv [bigValue]) echo (Some bigText) handlerWorld
   \<and> run (exampleEnv [bigValue])
       (deliveries (take 1 (streamFrames (exampleEnv [bigValue]) SendStream (str ''ns:h'')
          (fst (generateStreamUid (initialWorld (str ''a'')))) bigText)))
       handlerWorld
     = handlerWorld\<lparr>pendingStreams := [str ''a0'' \<mapsto> take 393 bigText]\<rparr>"
proof -
  have uid: "fst (generateStreamUid (initialWorld (str ''a''))) = str ''a0''"
    by (simp add: generateStreamUid_def initialWorld_def str_def digitChar_def
        toStringRadix.simps[of 36 0])
  have h: "distinctFlags (exampleEnv [bigValue])" "SP \<notin> set (str ''a0'')"
    "pendingStreams handlerWorld (str ''a0'') = None"
    by (simp_all add: distinctFlags_def exampleEnv_def str_def SP_def handlerWorld_fields)
  have len: "length (streamFrames (exampleEnv [bigValue]) SendStream (str ''ns:h'') (str ''a0'') bigText) = 2"
    by (simp add: streamFrames_def bigText_facts(3))
  show ?thesis
    using stream_reassembly[OF handlerWorld_fields(1,2) h(1,2) bigText_facts(2) h(3)] len
    by (simp add: uid bigText_facts(3) handlerWorld_fields)
qed


theorem sendAuto_frames_witness:
  "sendAuto (exampleEnv []) (str ''ns:h'') (JStr (str ''hi'')) False (initialWorld (str ''a''))
     = (None, (initialWorld (str ''a''))\<lparr>sent := [(str ''ns:h'', str ''0\"hi\"'')]\<rparr>)
   \<and> (\<exists>parts. 2 \<le> length parts \<and> concat parts = bigText
         \<and> (\<forall>p \<in> set parts. length p \<le> 393)
         \<and> fst (sendAuto (exampleEnv []) (str ''ns:h'') bigValue False (initialWorld (str ''a'')))
             = None)
   \<and> (\<exists>parts. 2 \<le> length parts \<and> concat parts = bigText
         \<and> (\<exists>frames. streamScriptEvent (exampleEnv []) (str ''ns:h'') (str ''ns'') bigValue False 0
                          = Inr (frames, 1) \<and> length frames = length parts))"
proof -
  let ?e = "exampleEnv []" and ?w = "initialWorld (str ''a'')"
  have small: "length (jsonStringify ?e (JStr (str ''hi''))) \<le> MAX_MESSAGE_LENGTH"
    by (simp add: exampleEnv_def str_def MAX_MESSAGE_LENGTH_def)
  have s: "jsonStringify ?e bigValue = bigText"
    by (simp add: exampleEnv_def bigText_def)
  have big: "length (jsonStringify ?e bigValue) > MAX_MESSAGE_LENGTH"
    by (simp add: s bigText_facts MAX_MESSAGE_LENGTH_def)
  have ns: "False \<or> length (str ''ns'') \<le> MAX_NAMESPACE_LENGTH"
    by (simp add: str_def MAX_NAMESPACE_LENGTH_def)
  have M: "MAX_MESSAGE_LENGTH - STREAM_MESSAGE_PADDING = 393"
    by (simp add: MAX_MESSAGE_LENGTH_def STREAM_MESSAGE_PADDING_def MAX_NAMESPACE_LENGTH_def)
  have 1: "sendAuto ?e (str ''ns:h'') (JStr (str ''hi'')) False ?w
     = (None, ?w\<lparr>sent := [(str ''ns:h'', str ''0\"hi\"'')]\<rparr>)"
    using sendAuto_frames[where e="?e" and v="JStr (str ''hi'')" and ev="str ''ns:h''"
        and force=False and w="?w"] small
    by (simp add: exampleEnv_def initialWorld_def str_def)
  have 2: "\<exists>parts. 2 \<le> length parts \<and> concat parts = bigText
         \<and> (\<forall>p \<in> set parts. length p \<le> 393)
         \<and> fst (sendAuto ?e (str ''ns:h'') bigValue False ?w) = None"
    using sendAuto_frames[where e="?e" and v=bigValue and ev="str ''ns:h''"
        and force=False and w="?w"] big
    unfolding s M Let_def by blast
  have 3: "\<exists>parts. 2 \<le> length parts \<and> concat parts = bigText
         \<and> (\<exists>frames. streamScriptEvent ?e (str ''ns:h'') (str ''ns'') bigValue False 0
                          = Inr (frames, 1) \<and> length frames = length parts)"
    using sendAuto_frames[where e="?e" and v=bigValue and ev="str ''ns:h''"
        and force=False and namespace="str ''ns''" and streamCount=0] big ns
    unfolding s M by fastforce
  show ?thesis using 1 2 3 by blast
qed


section \<open>Answering an invoke\<close>

lemma split_invoke_body:
  assumes "SP \<notin> set re" and "noLineTerminator raw"
  shows "hd (splitSpaceRest (re @ SP # raw)) = re"
    and "at (splitSpaceRest (re @ SP # raw)) (Suc 0) = Some raw"
  using assms
  by (simp_all add: hd_splitSpaceRest at_1_splitSpaceRest beforeSpace_append afterSpace_append
      dotStar_id)

lemma afterInvoke_eq:
  "afterInvoke e re r w =
     (let resp = (case r of Returned x \<Rightarrow> envelope x | Threw err \<Rightarrow> JNull);
          text = jsonStringify e resp;
          out = (if length text \<le> MAX_MESSAGE_LENGTH
                 then w\<lparr>sent := sent w @ [(re, flagChar e Send # text)]\<rparr>
                 else w\<lparr>streamUidsGenerated := streamUidsGenerated w + 1,
                        jobs := jobs w @ [(streamFrames e SendStream re (fst (generateStreamUid w)) text,
                                          None)]\<rparr>)
      in case r of
           Returned x \<Rightarrow> out
         | Threw err \<Rightarrow>
             if truthyError err then out\<lparr>warnings := warnings w @ [WarnError err]\<rparr> else out)"
  by (cases r)
     (auto simp: Let_def sendAuto_def sendInternal_def voidPromise_def generateStreamUid_def
        sendStreamInternal_def warn_def envelope_def MAX_MESSAGE_LENGTH_def)

lemma routeEvent_invoke:
  assumes "listeners w ev = Some l" and "flagChar e Invoke \<noteq> flagChar e Send"
    and "SP \<notin> set re" and "noLineTerminator raw"
  shows "routeEvent e ev (flagChar e Invoke # re @ SP # raw) w
         = Inr (invokeListener e l re (Some raw) w)"
  using assms(1,2) by (simp add: routeEvent_def split_invoke_body[OF assms(3,4)])

text \<open>
  Claim C2, amended. A well-formed Invoke frame (response event id without a space, then a
  space, then a text without line terminators that parses) routed to a callback of the
  application: whether the callback returns or throws at once, or suspends and is resumed
  with a result, the router ends in the same state, in which \<open>sendAuto\<close> was called once
  for the response event: the response is the result (a \<open>Failure\<close> as an object under
  \<open>__IPCFAILURE__\<close>), or \<open>null\<close> if the callback threw; when its serialized form is at
  most 428 code units long it is sent as one Send frame, otherwise it is queued as one
  stream of chunk frames; a thrown error is logged when it is truthy.
\<close>

theorem invoke_response:
  assumes "listeners w ev = Some (App f)" and "distinctFlags e"
    and "SP \<notin> set re" and "noLineTerminator raw" and "parseRawPayload e (Some raw) = Inr v"
  shows
    "(let resp = (case r of Returned x \<Rightarrow> envelope x | Threw err \<Rightarrow> JNull);
          text = jsonStringify e resp;
          out = (if length text \<le> MAX_MESSAGE_LENGTH
                 then w\<lparr>sent := sent w @ [(re, flagChar e Send # text)]\<rparr>
                 else w\<lparr>streamUidsGenerated := streamUidsGenerated w + 1,
                        jobs := jobs w @ [(streamFrames e SendStream re (fst (generateStreamUid w)) text,
                                          None)]\<rparr>);
          final = (case r of
                     Returned x \<Rightarrow> out
                   | Threw err \<Rightarrow>
                       if truthyError err then out\<lparr>warnings := warnings w @ [WarnError err]\<rparr>
                       else out);
          waiting = w\<lparr>suspended := suspended w @ [InvokeContinuation re]\<rparr>
      in (f v = Done r \<longrightarrow>
            routeEvent e ev (flagChar e Invoke # re @ [SP] @ raw) w = Inr final)
         \<and> (f v = Suspended \<longrightarrow>
            routeEvent e ev (flagChar e Invoke # re @ [SP] @ raw) w = Inr waiting
            \<and> resume e (length (suspended w)) r waiting = final))
     \<and> envelope (Failure m) = JObj [(IPCFAILURE, m)]
     \<and> (\<not> isFailure x \<longrightarrow> envelope x = x)"
proof -
  have fl: "flagChar e Invoke \<noteq> flagChar e Send"
    using assms(2) by (auto simp: distinctFlags_iff)
  have route: "routeEvent e ev (flagChar e Invoke # re @ [SP] @ raw) w
               = Inr (invokeListener e (App f) re (Some raw) w)"
    using routeEvent_invoke[OF assms(1) fl assms(3,4)] by simp
  have dn: "invokeListener e (App f) re (Some raw) w = afterInvoke e re r w" if "f v = Done r"
    using that assms(5) by (simp add: invokeListener_def)
  have susp: "invokeListener e (App f) re (Some raw) w
              = w\<lparr>suspended := suspended w @ [InvokeContinuation re]\<rparr>" if "f v = Suspended"
    using that assms(5) by (simp add: invokeListener_def)
  have res: "resume e (length (suspended w)) r (w\<lparr>suspended := suspended w @ [InvokeContinuation re]\<rparr>)
             = afterInvoke e re r w"
    by (simp add: resume_def removeAt_def)
  have env: "envelope (Failure m) = JObj [(IPCFAILURE, m)]" "\<not> isFailure x \<longrightarrow> envelope x = x"
    by (cases x; simp add: envelope_def)+
  have main: "(f v = Done r \<longrightarrow>
            routeEvent e ev (flagChar e Invoke # re @ [SP] @ raw) w = Inr (afterInvoke e re r w))
         \<and> (f v = Suspended \<longrightarrow>
            routeEvent e ev (flagChar e Invoke # re @ [SP] @ raw) w
              = Inr (w\<lparr>suspended := suspended w @ [InvokeContinuation re]\<rparr>)
            \<and> resume e (length (suspended w)) r
                  (w\<lparr>suspended := suspended w @ [InvokeContinuation re]\<rparr>)
                = afterInvoke e re r w)"
    using route dn susp res by simp
  show ?thesis
    unfolding Let_def using main[unfolded afterInvoke_eq Let_def] env by blast
qed


lemma exampleEnv_flags: "distinctFlags (exampleEnv vs)"
  by (simp add: distinctFlags_def exampleEnv_def)

lemma example_fields:
  "listeners bigHandlerWorld (str ''ns:h'') = Some (App (\<lambda>v. Done (Returned bigValue)))"
  "listeners suspendingWorld (str ''ns:h'') = Some (App (\<lambda>v. Suspended))"
  "bigHandlerWorld
     = (initialWorld (str ''b''))\<lparr>listeners := [str ''ns:h'' \<mapsto> App (\<lambda>v. Done (Returned bigValue))]\<rparr>"
  "suspendingWorld = (initialWorld (str ''b''))\<lparr>listeners := [str ''ns:h'' \<mapsto> App (\<lambda>v. Suspended)]\<rparr>"
  by (simp_all add: bigHandlerWorld_def suspendingWorld_def afterRegister_def registerListener_eq
      initialWorld_def str_def COLON_def UNDERSCORE_def startsWith_def)

lemma null_frame:
  "SP \<notin> set (str ''a:__0'')" "noLineTerminator (str ''null'')"
  "parseRawPayload (exampleEnv [JNull]) (Some (str ''null'')) = Inr JNull"
  "str ''a:__0 null'' = str ''a:__0'' @ SP # str ''null''"
  by (simp_all add: str_def SP_def noLineTerminator_def lineTerminator_def parseRawPayload_def
      exampleEnv_def exampleParse_def)

text \<open>
  Claim C2 as stated fails for a long result: the callback returns a string whose
  serialized form is 432 code units long, and two chunk frames go to the response event.
\<close>

theorem invoke_response_counterexample:
  "sent (run (exampleEnv [JNull])
           [Deliver (str ''ns:h'') (0x31 # str ''a:__0 null''), StepJob 0, StepJob 0]
           bigHandlerWorld)
   = [(str ''a:__0'', 0x32 # str ''b0 f '' @ take 393 bigText),
      (str ''a:__0'', 0x32 # str ''b0 t '' @ drop 393 bigText)]"
proof -
  let ?e = "exampleEnv [JNull]"
  have fl: "flagChar ?e Invoke \<noteq> flagChar ?e Send" "flagChar ?e Invoke = 0x31"
    by (simp_all add: exampleEnv_def)
  have sub: "subscribed bigHandlerWorld" "sent bigHandlerWorld = []" "jobs bigHandlerWorld = []"
    "uid bigHandlerWorld = str ''b''" "streamUidsGenerated bigHandlerWorld = 0"
    by (simp_all add: example_fields(3) initialWorld_def)
  have ser: "jsonStringify ?e (envelope bigValue) = bigText"
    by (simp add: exampleEnv_def envelope_def bigValue_def bigText_def)
  have big: "\<not> length bigText \<le> MAX_MESSAGE_LENGTH"
    by (simp add: bigText_facts MAX_MESSAGE_LENGTH_def)
  have frames: "streamFrames ?e SendStream (str ''a:__0'') (str ''b0'') bigText
      = [(str ''a:__0'', 0x32 # str ''b0 f '' @ take 393 bigText),
         (str ''a:__0'', 0x32 # str ''b0 t '' @ drop 393 bigText)]"
    by (simp add: streamFrames_def bigText_facts(3) chunkBodies_Cons exampleEnv_def str_def SP_def)
  have sid: "fst (generateStreamUid bigHandlerWorld) = str ''b0''"
    by (simp add: generateStreamUid_def sub str_def digitChar_def toStringRadix.simps[of 36 0])
  let ?w1 = "bigHandlerWorld\<lparr>streamUidsGenerated := 1,
               jobs := [(streamFrames ?e SendStream (str ''a:__0'') (str ''b0'') bigText, None)]\<rparr>"
  have "routeEvent ?e (str ''ns:h'') (flagChar ?e Invoke # str ''a:__0'' @ SP # str ''null'')
          bigHandlerWorld
        = Inr (invokeListener ?e (App (\<lambda>v. Done (Returned bigValue))) (str ''a:__0'')
                 (Some (str ''null'')) bigHandlerWorld)"
    by (rule routeEvent_invoke[OF example_fields(1) fl(1) null_frame(1,2)])
  also have "invokeListener ?e (App (\<lambda>v. Done (Returned bigValue))) (str ''a:__0'')
                 (Some (str ''null'')) bigHandlerWorld = ?w1"
    using big by (simp add: invokeListener_def null_frame(3) afterInvoke_eq ser sid sub Let_def)
  finally have d: "step ?e (Deliver (str ''ns:h'') (0x31 # str ''a:__0 null'')) bigHandlerWorld = ?w1"
    by (simp add: onScriptEventRecieved_def sub fl(2) null_frame(4))
  have "sent (stepJob 0 (stepJob 0 ?w1))
        = streamFrames ?e SendStream (str ''a:__0'') (str ''b0'') bigText"
    unfolding frames by (simp add: stepJob_def sub)
  then show ?thesis
    unfolding run_def using d by (simp add: frames)
qed

theorem invoke_response_witness:
  "routeEvent (exampleEnv [JNull]) (str ''ns:h'') (0x31 # str ''a:__0 null'') handlerWorld
     = Inr (handlerWorld\<lparr>sent := [(str ''a:__0'', str ''0null'')]\<rparr>)
   \<and> routeEvent (exampleEnv [JNull]) (str ''ns:h'') (0x31 # str ''a:__0 null'') suspendingWorld
     = Inr (suspendingWorld\<lparr>suspended := [InvokeContinuation (str ''a:__0'')]\<rparr>)
   \<and> resume (exampleEnv [JNull]) 0 (Threw (AppError (str ''boom'')))
       (suspendingWorld\<lparr>suspended := [InvokeContinuation (str ''a:__0'')]\<rparr>)
     = suspendingWorld\<lparr>sent := [(str ''a:__0'', str ''0null'')],
                        warnings := [WarnError (AppError (str ''boom''))]\<rparr>"
proof -
  let ?e = "exampleEnv [JNull]"
  have l1: "listeners handlerWorld (str ''ns:h'') = Some (App (\<lambda>v. Done (Returned v)))"
    using handlerWorld_fields(1) by (simp add: echo_def)
  have small: "length (jsonStringify ?e JNull) \<le> MAX_MESSAGE_LENGTH"
    "jsonStringify ?e JNull = str ''null''" "flagChar ?e Invoke = 0x31" "flagChar ?e Send = 0x30"
    by (simp_all add: exampleEnv_def str_def MAX_MESSAGE_LENGTH_def)
  have f: "sent handlerWorld = []" "sent suspendingWorld = []" "suspended suspendingWorld = []"
    "warnings suspendingWorld = []"
    by (simp_all add: handlerWorld_eq example_fields(4) initialWorld_def)
  have z: "0x30 # str ''null'' = str ''0null''"
    by (simp add: str_def)
  note a = invoke_response[OF l1 exampleEnv_flags null_frame(1,2,3), where r="Returned JNull"]
  note b = invoke_response[OF example_fields(2) exampleEnv_flags null_frame(1,2,3),
      where r="Threw (AppError (str ''boom''))"]
  show ?thesis
    using a b small
    by (simp add: Let_def envelope_def f null_frame(4) z)
qed

section \<open>The failure envelope, end to end\<close>

lemma invokeInternal_eq:
  assumes "force \<or> length (rid @ [SP] @ content) \<le> MAX_MESSAGE_LENGTH"
  shows "invokeInternal e ev content force tf rid w =
     (length (promises w),
      w\<lparr>promises := promises w @ [Pending],
        timers := timers w @ [(timersCreated w, now w + 20, TimeoutCallback rid (length (promises w)) ev)],
        timersCreated := timersCreated w + 1,
        listeners := (listeners w)(rid \<mapsto> InvokeResponse rid (length (promises w)) (timersCreated w) tf),
        sent := sent w @ [(ev, flagChar e Invoke # rid @ SP # content)]\<rparr>)"
  using assms
  by (auto simp: invokeInternal_def newPromise_def runTimeout_def setListener_def sendInternal_def)

lemma routeEvent_send:
  assumes "listeners w ev = Some l"
  shows "routeEvent e ev (flagChar e Send # message) w = Inr (callListener e l (Some message) w)"
  using assms by (simp add: routeEvent_def)

lemma parse_envelope:
  assumes "jsonParse e raw = Some (JObj props)" and "map_of props IPCFAILURE = Some m"
  shows "parseRawPayload e (Some raw) = Inr (Failure m)"
  using assms by (simp add: parseRawPayload_def)

lemma settle_pending:
  "p < length (promises w) \<Longrightarrow> promises w ! p = Pending \<Longrightarrow>
     settle p s w = w\<lparr>promises := (promises w)[p := s]\<rparr>"
  by (simp add: settle_def)

text \<open>
  Claim C5, amended. An invoke whose request fits the limit (or is forced), with a
  response listener id without a space and a payload text without line terminators that
  parses, sends its Invoke frame and leaves the promise pending. A callback that returns
  \<open>Failure m\<close> for the request, at once or after suspending, answers with the object
  \<open>{__IPCFAILURE__: m}\<close>, as one Send frame when its text fits the limit and as a stream
  otherwise. When the serializer round-trips that object, the response routed to the
  caller as the Send frame settles the promise: rejected with \<open>Failure m\<close> if \<open>throwFailures\<close> is set, resolved with
  \<open>Failure m\<close> otherwise; the response listener is removed, the timer is cancelled and
  nothing is logged. The chunk frames of the response, delivered in order, have the same
  effect when the stream id holds no space, the text of the object holds no line
  terminator and the caller has no buffer under the stream id. Every payload text that
  parses to an object with the property \<open>__IPCFAILURE__\<close> is received as the
  \<open>Failure\<close> of that property's value.
\<close>

theorem failure_round_trip:
  assumes "distinctFlags e"
    and "force \<or> length (rid @ [SP] @ content) \<le> MAX_MESSAGE_LENGTH"
    and "subscribed wa"
    and "listeners wb ev = Some (App f)"
    and "parseRawPayload e (Some content) = Inr v"
    and "SP \<notin> set rid" and "noLineTerminator content"
    and "jsonParse e (jsonStringify e (JObj [(IPCFAILURE, m)])) = Some (JObj [(IPCFAILURE, m)])"
  shows
    "(let p = fst (invokeInternal e ev content force tf rid wa);
          wa1 = snd (invokeInternal e ev content force tf rid wa);
          request = flagChar e Invoke # rid @ [SP] @ content;
          response = jsonStringify e (JObj [(IPCFAILURE, m)]);
          sid = fst (generateStreamUid wb);
          settled = (if tf then Rejected (Thrown (Failure m)) else Resolved (Failure m));
          answered = (if length response \<le> MAX_MESSAGE_LENGTH
                      then wb\<lparr>sent := sent wb @ [(rid, flagChar e Send # response)]\<rparr>
                      else wb\<lparr>streamUidsGenerated := streamUidsGenerated wb + 1,
                             jobs := jobs wb
                               @ [(streamFrames e SendStream rid sid response, None)]\<rparr>);
          waiting = wb\<lparr>suspended := suspended wb @ [InvokeContinuation rid]\<rparr>
      in sent wa1 = sent wa @ [(ev, request)]
         \<and> promises wa1 = promises wa @ [Pending] \<and> p = length (promises wa)
         \<and> (f v = Done (Returned (Failure m)) \<longrightarrow>
               routeEvent e ev request wb = Inr answered)
         \<and> (f v = Suspended \<longrightarrow>
               routeEvent e ev request wb = Inr waiting
               \<and> resume e (length (suspended wb)) (Returned (Failure m)) waiting = answered)
         \<and> (\<exists>wa2.
               routeEvent e rid (flagChar e Send # response) wa1 = Inr wa2
               \<and> (SP \<notin> set sid \<and> noLineTerminator response \<and> pendingStreams wa sid = None \<longrightarrow>
                    run e (deliveries (streamFrames e SendStream rid sid response)) wa1 = wa2)
               \<and> promises wa2 = promises wa @ [settled]
               \<and> listeners wa2 = (listeners wa)(rid := None)
               \<and> timers wa2 = filter (\<lambda>t. fst t \<noteq> timersCreated wa) (timers wa)
               \<and> warnings wa2 = warnings wa \<and> sent wa2 = sent wa1))
     \<and> (\<forall>raw props x. jsonParse e raw = Some (JObj props) \<and> map_of props IPCFAILURE = Some x
           \<longrightarrow> parseRawPayload e (Some raw) = Inr (Failure x))"
proof -
  let ?p = "length (promises wa)" and ?h = "timersCreated wa"
  let ?L = "InvokeResponse rid ?p ?h tf"
  let ?response = "jsonStringify e (JObj [(IPCFAILURE, m)])"
  let ?sid = "fst (generateStreamUid wb)"
  let ?settled = "if tf then Rejected (Thrown (Failure m)) else Resolved (Failure m)"
  let ?wa1 = "wa\<lparr>promises := promises wa @ [Pending],
        timers := timers wa @ [(?h, now wa + 20, TimeoutCallback rid ?p ev)],
        timersCreated := ?h + 1,
        listeners := (listeners wa)(rid \<mapsto> ?L),
        sent := sent wa @ [(ev, flagChar e Invoke # rid @ SP # content)]\<rparr>"
  have inv: "invokeInternal e ev content force tf rid wa = (?p, ?wa1)"
    by (rule invokeInternal_eq[OF assms(2)])
  have fl: "flagChar e Invoke \<noteq> flagChar e Send" "flagChar e SendStream \<noteq> flagChar e Send"
    "flagChar e SendStream \<noteq> flagChar e Invoke" "flagChar e SendStream \<noteq> flagChar e InvokeStream"
    using assms(1) by (auto simp: distinctFlags_iff)
  have route: "routeEvent e ev (flagChar e Invoke # rid @ SP # content) wb
                 = Inr (invokeListener e (App f) rid (Some content) wb)"
    by (rule routeEvent_invoke[OF assms(4) fl(1) assms(6,7)])
  have handler: "routeEvent e ev (flagChar e Invoke # rid @ SP # content) wb
                 = Inr (afterInvoke e rid (Returned (Failure m)) wb)"
    if "f v = Done (Returned (Failure m))"
    unfolding route using that assms(5) by (simp add: invokeListener_def)
  have susp: "routeEvent e ev (flagChar e Invoke # rid @ SP # content) wb
                 = Inr (wb\<lparr>suspended := suspended wb @ [InvokeContinuation rid]\<rparr>)"
    if "f v = Suspended"
    unfolding route using that assms(5) by (simp add: invokeListener_def)
  have res: "resume e (length (suspended wb)) (Returned (Failure m))
               (wb\<lparr>suspended := suspended wb @ [InvokeContinuation rid]\<rparr>)
             = afterInvoke e rid (Returned (Failure m)) wb"
    by (simp add: resume_def removeAt_def)
  have env: "envelope (Failure m) = JObj [(IPCFAILURE, m)]"
    by (simp add: envelope_def)
  have ai: "afterInvoke e rid (Returned (Failure m)) wb
        = (if length ?response \<le> MAX_MESSAGE_LENGTH
           then wb\<lparr>sent := sent wb @ [(rid, flagChar e Send # ?response)]\<rparr>
           else wb\<lparr>streamUidsGenerated := streamUidsGenerated wb + 1,
                  jobs := jobs wb @ [(streamFrames e SendStream rid ?sid ?response, None)]\<rparr>)"
    using afterInvoke_eq[of e rid "Returned (Failure m)" wb]
    by (simp add: Let_def env del: afterInvoke.simps)
  let ?answered = "if length ?response \<le> MAX_MESSAGE_LENGTH
           then wb\<lparr>sent := sent wb @ [(rid, flagChar e Send # ?response)]\<rparr>
           else wb\<lparr>streamUidsGenerated := streamUidsGenerated wb + 1,
                  jobs := jobs wb @ [(streamFrames e SendStream rid ?sid ?response, None)]\<rparr>"
  have direct: "f v = Done (Returned (Failure m)) \<longrightarrow>
       routeEvent e ev (flagChar e Invoke # rid @ [SP] @ content) wb = Inr ?answered"
    using handler ai by (simp del: afterInvoke.simps)
  have later: "f v = Suspended \<longrightarrow>
       routeEvent e ev (flagChar e Invoke # rid @ [SP] @ content) wb
         = Inr (wb\<lparr>suspended := suspended wb @ [InvokeContinuation rid]\<rparr>)
       \<and> resume e (length (suspended wb)) (Returned (Failure m))
             (wb\<lparr>suspended := suspended wb @ [InvokeContinuation rid]\<rparr>) = ?answered"
    using susp res ai by (simp del: afterInvoke.simps)
  let ?wa2 = "callListener e ?L (Some ?response) ?wa1"
  have l1: "listeners ?wa1 rid = Some ?L" "subscribed ?wa1"
    using assms(3) by simp_all
  have single: "routeEvent e rid (flagChar e Send # ?response) ?wa1 = Inr ?wa2"
    by (rule routeEvent_send[OF l1(1)])
  have stream: "run e (deliveries (streamFrames e SendStream rid ?sid ?response)) ?wa1 = ?wa2"
    if "SP \<notin> set ?sid" "noLineTerminator ?response" "pendingStreams wa ?sid = None"
  proof -
    have c0: "cachedContent ?wa1 ?sid = []"
      using that(3) by (simp add: cachedContent_def)
    have w0: "?wa1\<lparr>pendingStreams := (pendingStreams ?wa1)(?sid := None)\<rparr> = ?wa1"
      using that(3) by (simp add: fun_upd_idem)
    have parts: "\<forall>p \<in> set (splitLoop [?response]). noLineTerminator p"
      "splitLoop [?response] \<noteq> []" "concat (splitLoop [?response]) = ?response"
      using noLT_parts[OF that(2)] splitLoop_single[of ?response] by simp_all
    show ?thesis
      using reassemble_all[where fl="flagChar e SendStream" and e=e,
          OF l1 _ fl(2,3) that(1) parts(1,2)] fl(4) c0 w0 parts(3)
      by (simp add: streamFrames_def Let_def)
  qed
  have pr: "parseRawPayload e (Some ?response) = Inr (Failure m)"
    using parse_envelope[OF assms(8)] by simp
  have wa2: "?wa2 = ?wa1\<lparr>listeners := (listeners wa)(rid := None),
                        timers := filter (\<lambda>t. fst t \<noteq> ?h) (timers wa),
                        promises := promises wa @ [?settled]\<rparr>"
    by (simp add: callListener_def pr removeListener_def clearRun_def settleWith_def settle_def
        nth_append)
  have fields: "promises ?wa2 = promises wa @ [?settled]"
    "listeners ?wa2 = (listeners wa)(rid := None)"
    "timers ?wa2 = filter (\<lambda>t. fst t \<noteq> ?h) (timers wa)"
    "warnings ?wa2 = warnings wa" "sent ?wa2 = sent ?wa1"
    unfolding wa2 by simp_all
  have ex: "\<exists>wa2.
               routeEvent e rid (flagChar e Send # ?response) ?wa1 = Inr wa2
               \<and> (SP \<notin> set ?sid \<and> noLineTerminator ?response \<and> pendingStreams wa ?sid = None \<longrightarrow>
                    run e (deliveries (streamFrames e SendStream rid ?sid ?response)) ?wa1 = wa2)
               \<and> promises wa2 = promises wa @ [?settled]
               \<and> listeners wa2 = (listeners wa)(rid := None)
               \<and> timers wa2 = filter (\<lambda>t. fst t \<noteq> timersCreated wa) (timers wa)
               \<and> warnings wa2 = warnings wa \<and> sent wa2 = sent ?wa1"
  proof (intro exI[of _ ?wa2] conjI impI)
    show "routeEvent e rid (flagChar e Send # ?response) ?wa1 = Inr ?wa2"
      by (rule single)
    assume "SP \<notin> set ?sid \<and> noLineTerminator ?response \<and> pendingStreams wa ?sid = None"
    then show "run e (deliveries (streamFrames e SendStream rid ?sid ?response)) ?wa1 = ?wa2"
      by (intro stream) simp_all
  qed (rule fields)+
  have s1: "sent ?wa1 = sent wa @ [(ev, flagChar e Invoke # rid @ [SP] @ content)]"
    "promises ?wa1 = promises wa @ [Pending]"
    by simp_all
  have rec: "\<forall>raw props x. jsonParse e raw = Some (JObj props) \<and> map_of props IPCFAILURE = Some x
           \<longrightarrow> parseRawPayload e (Some raw) = Inr (Failure x)"
    using parse_envelope by blast
  show ?thesis
    unfolding Let_def inv fst_conv snd_conv
    by (intro conjI) (rule s1 refl direct later ex rec)+
qed


lemma failingWorld_eq:
  "failingWorld m = (initialWorld (str ''b''))
      \<lparr>listeners := [str ''ns:h'' \<mapsto> App (\<lambda>v. Done (Returned (Failure m)))]\<rparr>"
  by (simp add: failingWorld_def afterRegister_def registerListener_eq
      initialWorld_def str_def COLON_def UNDERSCORE_def startsWith_def)

theorem failure_round_trip_witness:
  "(\<exists>wa2. routeEvent (exampleEnv [JNull, JObj [(IPCFAILURE, JStr (str ''x''))]]) (str ''a:__0'')
             (0x30 # str ''{\"__IPCFAILURE__\":\"x\"}'')
             (snd (invokeInternal (exampleEnv [JNull, JObj [(IPCFAILURE, JStr (str ''x''))]])
                     (str ''ns:h'') (str ''null'') False True (str ''a:__0'')
                     (initialWorld (str ''a''))))
           = Inr wa2
         \<and> promises wa2 = [Rejected (Thrown (Failure (JStr (str ''x''))))])
   \<and> (\<exists>wa2. routeEvent (exampleEnv [JNull, JObj [(IPCFAILURE, JStr (str ''x''))]]) (str ''a:__0'')
             (0x30 # str ''{\"__IPCFAILURE__\":\"x\"}'')
             (snd (invokeInternal (exampleEnv [JNull, JObj [(IPCFAILURE, JStr (str ''x''))]])
                     (str ''ns:h'') (str ''null'') False False (str ''a:__0'')
                     (initialWorld (str ''a''))))
           = Inr wa2
         \<and> promises wa2 = [Resolved (Failure (JStr (str ''x'')))])
   \<and> routeEvent (exampleEnv [JNull, JObj [(IPCFAILURE, JStr (str ''x''))]]) (str ''ns:h'')
         (0x31 # str ''a:__0 null'') (failingWorld (JStr (str ''x'')))
       = Inr ((failingWorld (JStr (str ''x'')))
                \<lparr>sent := [(str ''a:__0'', 0x30 # str ''{\"__IPCFAILURE__\":\"x\"}'')]\<rparr>)
   \<and> (\<exists>wa2. run (exampleEnv [JNull, JObj [(IPCFAILURE, bigValue)]])
             (deliveries (streamFrames (exampleEnv [JNull, JObj [(IPCFAILURE, bigValue)]])
                SendStream (str ''a:__0'') (str ''b0'')
                (exampleStringify (JObj [(IPCFAILURE, bigValue)]))))
             (snd (invokeInternal (exampleEnv [JNull, JObj [(IPCFAILURE, bigValue)]])
                     (str ''ns:h'') (str ''null'') False False (str ''a:__0'')
                     (initialWorld (str ''a''))))
           = wa2
         \<and> promises wa2 = [Resolved (Failure bigValue)])"
proof -
  let ?m = "JStr (str ''x'')"
  let ?e = "exampleEnv [JNull, JObj [(IPCFAILURE, ?m)]]"
  let ?E = "exampleEnv [JNull, JObj [(IPCFAILURE, bigValue)]]"
  let ?wa = "initialWorld (str ''a'')"
  have len: "False \<or> length (str ''a:__0'' @ [SP] @ str ''null'') \<le> MAX_MESSAGE_LENGTH"
    by (simp add: str_def MAX_MESSAGE_LENGTH_def)
  have wa: "subscribed ?wa" "promises ?wa = []" "pendingStreams ?wa = Map.empty"
    by (simp_all add: initialWorld_def)
  have l: "listeners (failingWorld m) (str ''ns:h'') = Some (App (\<lambda>v. Done (Returned (Failure m))))"
    "sent (failingWorld m) = []" "fst (generateStreamUid (failingWorld m)) = str ''b0''" for m
    by (simp_all add: failingWorld_eq initialWorld_def generateStreamUid_def str_def digitChar_def
        toStringRadix.simps[of 36 0])
  have p: "parseRawPayload (exampleEnv vs) (Some (str ''null'')) = Inr JNull" if "hd vs = JNull" "vs \<noteq> []" for vs
    using that by (cases vs) (simp_all add: parseRawPayload_def exampleEnv_def exampleParse_def)
  have rt: "jsonParse (exampleEnv [JNull, JObj [(IPCFAILURE, m)]])
              (jsonStringify (exampleEnv [JNull, JObj [(IPCFAILURE, m)]]) (JObj [(IPCFAILURE, m)]))
            = Some (JObj [(IPCFAILURE, m)])" for m
    by (simp add: exampleEnv_def exampleParse_def str_def)
  have ser: "jsonStringify ?e (JObj [(IPCFAILURE, ?m)]) = str ''{\"__IPCFAILURE__\":\"x\"}''"
    "jsonStringify ?E (JObj [(IPCFAILURE, bigValue)]) = exampleStringify (JObj [(IPCFAILURE, bigValue)])"
    by (simp_all add: exampleEnv_def IPCFAILURE_def str_def)
  have small: "length (str ''{\"__IPCFAILURE__\":\"x\"}'') \<le> MAX_MESSAGE_LENGTH"
    by (simp add: str_def MAX_MESSAGE_LENGTH_def)
  have fl: "flagChar (exampleEnv vs) Send = 0x30" "flagChar (exampleEnv vs) Invoke = 0x31" for vs
    by (simp_all add: exampleEnv_def)
  have bigser: "noLineTerminator (exampleStringify (JObj [(IPCFAILURE, bigValue)]))"
    "SP \<notin> set (str ''b0'')"
    using bigText_facts(2)
    by (simp_all add: bigText_def IPCFAILURE_def str_def SP_def lineTerminator_def)
  have p1: "parseRawPayload ?e (Some (str ''null'')) = Inr JNull"
    "parseRawPayload ?E (Some (str ''null'')) = Inr JNull"
    by (simp_all add: p)
  note t = failure_round_trip[where tf=True, OF exampleEnv_flags len wa(1) l(1)[of ?m] p1(1)
      null_frame(1,2) rt, simplified Let_def ser fl l wa]
  note f = failure_round_trip[where tf=False, OF exampleEnv_flags len wa(1) l(1)[of ?m] p1(1)
      null_frame(1,2) rt, simplified Let_def ser fl l wa]
  note b = failure_round_trip[where tf=False, OF exampleEnv_flags len wa(1) l(1)[of bigValue] p1(2)
      null_frame(1,2) rt, simplified Let_def ser fl l wa]
  show ?thesis
    using t f b small bigser
    by (simp add: null_frame(4)) blast
qed


section \<open>Invariants of a pending invoke\<close>

text \<open>What sending and logging leave alone.\<close>

lemma afterCall_fields:
  "listeners (afterCall r w) = listeners w" "promises (afterCall r w) = promises w"
  "timers (afterCall r w) = timers w" "timersCreated (afterCall r w) = timersCreated w"
  "streamTimeoutId (afterCall r w) = streamTimeoutId w" "now (afterCall r w) = now w"
  "finallyCallbacks (afterCall r w) = finallyCallbacks w" "subscribed (afterCall r w) = subscribed w"
  by (cases r; simp add: warn_def finallyCallbacks_def)+

lemma afterInvoke_fields:
  "listeners (afterInvoke e re r w) = listeners w" "promises (afterInvoke e re r w) = promises w"
  "timers (afterInvoke e re r w) = timers w" "timersCreated (afterInvoke e re r w) = timersCreated w"
  "streamTimeoutId (afterInvoke e re r w) = streamTimeoutId w" "now (afterInvoke e re r w) = now w"
  "finallyCallbacks (afterInvoke e re r w) = finallyCallbacks w"
  "subscribed (afterInvoke e re r w) = subscribed w"
  by (cases r; simp add: afterInvoke_eq Let_def finallyCallbacks_def del: afterInvoke.simps)+

lemma pendingInvoke_cong:
  assumes "listeners w' = listeners w" "promises w' = promises w" "timers w' = timers w"
    "timersCreated w' = timersCreated w" "streamTimeoutId w' = streamTimeoutId w"
    "finallyCallbacks w' = finallyCallbacks w" "now w' = now w"
  shows "pendingInvoke rid p h due ev tf w' = pendingInvoke rid p h due ev tf w"
  by (simp add: pendingInvoke_def assms)

lemma establish:
  assumes "unused rid w" and "force \<or> length (rid @ [SP] @ content) \<le> MAX_MESSAGE_LENGTH"
  shows "pendingInvoke rid (length (promises w)) (timersCreated w) (now w + 20) ev tf
           (snd (invokeInternal e ev content force tf rid w))"
proof -
  let ?p = "length (promises w)" and ?h = "timersCreated w"
  have t: "\<forall>t \<in> set (timers w). fst t \<noteq> ?h \<and> foreignCallback rid ?p (snd (snd t))"
    using assms(1) by (fastforce simp: unused_def foreignCallback_def)
  then have f: "filter (\<lambda>t. fst t = ?h) (timers w) = []"
    by (simp add: filter_empty_conv)
  have l: "foreignListener rid ?p ?h l" if "listeners w k = Some l" for k l
  proof -
    from that have "l \<in> ran (listeners w)" by (auto simp: ran_def)
    then have "createdListener rid w l" using assms(1) by (simp add: unused_def)
    then show ?thesis by (cases l) auto
  qed
  have s: "streamTimeoutId w q \<noteq> Some ?h" for q
  proof
    assume "streamTimeoutId w q = Some ?h"
    then have "?h \<in> ran (streamTimeoutId w)" by (auto simp: ran_def)
    then show False using assms(1) by (auto simp: unused_def)
  qed
  have j: "\<forall>cb \<in> set (finallyCallbacks w). foreignCallback rid ?p cb"
    using assms(1) by (fastforce simp: unused_def foreignCallback_def)
  show ?thesis
    unfolding invokeInternal_eq[OF assms(2)] pendingInvoke_def
    using t f l s j by (auto simp: finallyCallbacks_def)
qed

lemma pi_settle:
  "pendingInvoke rid p h due ev tf w \<Longrightarrow> q \<noteq> p \<Longrightarrow> pendingInvoke rid p h due ev tf (settle q s w)"
  by (simp add: pendingInvoke_def settle_def finallyCallbacks_def)

lemma pi_settleWith:
  "pendingInvoke rid p h due ev tf w \<Longrightarrow> q \<noteq> p \<Longrightarrow>
     pendingInvoke rid p h due ev tf (settleWith tf' q v w)"
  by (simp add: settleWith_def pi_settle)

lemma pi_removeListener:
  "pendingInvoke rid p h due ev tf w \<Longrightarrow> r \<noteq> rid \<Longrightarrow>
     pendingInvoke rid p h due ev tf (snd (removeListener r w))"
  by (simp add: pendingInvoke_def removeListener_def finallyCallbacks_def)

lemma filter_handle:
  "h' \<noteq> h \<Longrightarrow> filter (\<lambda>t. fst t \<noteq> h' \<and> fst t = h) ts = filter (\<lambda>t. fst t = h) ts"
  by (induction ts) auto

lemma pi_clearRun:
  "pendingInvoke rid p h due ev tf w \<Longrightarrow> h' \<noteq> h \<Longrightarrow> pendingInvoke rid p h due ev tf (clearRun h' w)"
  by (simp add: pendingInvoke_def clearRun_def finallyCallbacks_def filter_handle)

lemma pi_apply:
  assumes "pendingInvoke rid p h due ev tf w" and "foreignListener rid p h l"
  shows "pendingInvoke rid p h due ev tf (snd (applyListener l v w))"
proof (cases l)
  case (App f)
  then show ?thesis using assms by simp
next
  case (InvokeResponse r q h' tf')
  then show ?thesis
    using assms by (simp add: pi_settleWith pi_clearRun pi_removeListener)
next
  case (StreamResponse r q tf')
  have "streamTimeoutId w q \<noteq> Some h"
    using assms(1) by (simp add: pendingInvoke_def)
  then show ?thesis
    using assms StreamResponse
    by (auto simp: pi_settleWith pi_clearRun pi_removeListener split: option.splits)
qed

lemma pi_call:
  assumes "pendingInvoke rid p h due ev tf w" and "foreignListener rid p h l"
  shows "pendingInvoke rid p h due ev tf (callListener e l raw w)"
proof (cases "parseRawPayload e raw")
  case (Inl err)
  then show ?thesis
    using assms(1) by (simp add: callListener_def pendingInvoke_def finallyCallbacks_def)
next
  case (Inr v)
  obtain out w1 where a: "applyListener l v w = (out, w1)" by (cases "applyListener l v w")
  have w1: "pendingInvoke rid p h due ev tf w1"
    using pi_apply[OF assms, of v] a by simp
  show ?thesis
  proof (cases out)
    case (Done r)
    have "pendingInvoke rid p h due ev tf (afterCall r w1) = pendingInvoke rid p h due ev tf w1"
      by (rule pendingInvoke_cong) (rule afterCall_fields)+
    then show ?thesis using Inr a Done w1 by (simp add: callListener_def)
  next
    case Suspended
    have "pendingInvoke rid p h due ev tf (w1\<lparr>suspended := suspended w1 @ [CallContinuation]\<rparr>)"
      using w1 by (simp add: pendingInvoke_def finallyCallbacks_def)
    then show ?thesis using Inr a Suspended by (simp add: callListener_def)
  qed
qed

lemma pi_invoke:
  assumes "pendingInvoke rid p h due ev tf w" and "foreignListener rid p h l"
  shows "pendingInvoke rid p h due ev tf (invokeListener e l re raw w)"
proof (cases "parseRawPayload e raw")
  case (Inl err)
  then show ?thesis
    using assms(1) by (simp add: invokeListener_def pendingInvoke_def finallyCallbacks_def)
next
  case (Inr v)
  obtain out w1 where a: "applyListener l v w = (out, w1)" by (cases "applyListener l v w")
  have w1: "pendingInvoke rid p h due ev tf w1"
    using pi_apply[OF assms, of v] a by simp
  show ?thesis
  proof (cases out)
    case (Done r)
    have "pendingInvoke rid p h due ev tf (afterInvoke e re r w1) = pendingInvoke rid p h due ev tf w1"
      by (rule pendingInvoke_cong) (rule afterInvoke_fields)+
    then show ?thesis using Inr a Done w1 by (simp add: invokeListener_def del: afterInvoke.simps)
  next
    case Suspended
    have "pendingInvoke rid p h due ev tf (w1\<lparr>suspended := suspended w1 @ [InvokeContinuation re]\<rparr>)"
      using w1 by (simp add: pendingInvoke_def finallyCallbacks_def)
    then show ?thesis using Inr a Suspended by (simp add: invokeListener_def)
  qed
qed

lemma pi_pendingStreams:
  "pendingInvoke rid p h due ev tf (w\<lparr>pendingStreams := x\<rparr>) = pendingInvoke rid p h due ev tf w"
  by (simp add: pendingInvoke_def finallyCallbacks_def)

lemma pi_routeStream:
  assumes "pendingInvoke rid p h due ev tf w" and "foreignListener rid p h l"
    and "routeStream e l fl m w = Inr w'"
  shows "pendingInvoke rid p h due ev tf w'"
  using assms(3) assms(1,2)
  by (auto simp: routeStream_def Let_def pi_pendingStreams pi_call pi_invoke
      split: option.splits if_splits)

lemma pi_route:
  assumes "pendingInvoke rid p h due ev tf w" and "k \<noteq> rid"
    and "routeEvent e k m w = Inr w'"
  shows "pendingInvoke rid p h due ev tf w'"
proof (cases "listeners w k")
  case None
  then show ?thesis using assms by (simp add: routeEvent_def)
next
  case (Some l)
  then have f: "foreignListener rid p h l"
    using assms(1,2) by (simp add: pendingInvoke_def)
  show ?thesis
    using assms(3) Some assms(1) f
    by (auto simp: routeEvent_def pi_call pi_invoke split: list.splits if_splits
        intro: pi_routeStream)
qed

lemma pi_runCallback:
  assumes "pendingInvoke rid p h due ev tf w" and "foreignCallback rid p cb"
  shows "pendingInvoke rid p h due ev tf (runCallback cb w)"
  using assms by (cases cb) (simp add: foreignCallback_def pi_settle pi_removeListener)

lemma pi_fold_callbacks:
  assumes "pendingInvoke rid p h due ev tf w"
    and "\<forall>t \<in> set ts. foreignCallback rid p (snd (snd t))"
  shows "pendingInvoke rid p h due ev tf (fold (\<lambda>t. runCallback (snd (snd t))) ts w)"
  using assms by (induction ts arbitrary: w) (simp_all add: pi_runCallback)

lemma filter_due_other:
  assumes "filter (\<lambda>t. fst t = h) ts = [(h, due, cb)]" and "\<not> due \<le> n"
  shows "filter (\<lambda>t. fst t = h) (filter (\<lambda>t. \<not> fst (snd t) \<le> n) ts) = [(h, due, cb)]"
    and "\<forall>t \<in> set (filter (\<lambda>t. fst (snd t) \<le> n) ts). fst t \<noteq> h"
proof -
  have mem: "t \<in> set ts \<Longrightarrow> fst t = h \<Longrightarrow> t = (h, due, cb)" for t
  proof -
    assume "t \<in> set ts" "fst t = h"
    then have "t \<in> set (filter (\<lambda>t. fst t = h) ts)" by simp
    then show "t = (h, due, cb)" unfolding assms(1) by simp
  qed
  have "filter (\<lambda>t. fst t = h) (filter (\<lambda>t. \<not> fst (snd t) \<le> n) ts)
        = filter (\<lambda>t. \<not> fst (snd t) \<le> n) (filter (\<lambda>t. fst t = h) ts)"
    by (simp add: conj_commute)
  then show "filter (\<lambda>t. fst t = h) (filter (\<lambda>t. \<not> fst (snd t) \<le> n) ts) = [(h, due, cb)]"
    unfolding assms(1) using assms(2) by simp
  show "\<forall>t \<in> set (filter (\<lambda>t. fst (snd t) \<le> n) ts). fst t \<noteq> h"
    using mem assms(2) by fastforce
qed

lemma pi_tick:
  assumes "pendingInvoke rid p h due ev tf w" and "now w + 1 < due"
  shows "pendingInvoke rid p h due ev tf (tick w)"
proof -
  let ?n = "now w + 1"
  let ?w0 = "w\<lparr>now := ?n, timers := filter (\<lambda>t. \<not> fst (snd t) \<le> ?n) (timers w)\<rparr>"
  have f: "filter (\<lambda>t. fst t = h) (timers w) = [(h, due, TimeoutCallback rid p ev)]"
    and o: "\<forall>t \<in> set (timers w). fst t \<noteq> h \<longrightarrow> foreignCallback rid p (snd (snd t))"
    using assms(1) by (simp_all add: pendingInvoke_def)
  have nd: "\<not> due \<le> ?n" using assms(2) by simp
  note fd = filter_due_other[OF f nd]
  have w0: "pendingInvoke rid p h due ev tf ?w0"
    using assms fd(1) by (simp add: pendingInvoke_def finallyCallbacks_def)
  have due: "\<forall>t \<in> set (filter (\<lambda>t. fst (snd t) \<le> ?n) (timers w)). foreignCallback rid p (snd (snd t))"
  proof (intro ballI)
    fix t
    assume a: "t \<in> set (filter (\<lambda>t. fst (snd t) \<le> ?n) (timers w))"
    then have "t \<in> set (timers w)" by simp
    moreover from a fd(2) have "fst t \<noteq> h" by blast
    ultimately show "foreignCallback rid p (snd (snd t))" using o by blast
  qed
  show ?thesis
    unfolding tick_def by (rule pi_fold_callbacks[OF w0 due])
qed

lemma finallyCallbacks_update:
  "k < length (jobs w) \<Longrightarrow> jobs w ! k = (fs, fin) \<Longrightarrow>
     finallyCallbacks (w\<lparr>sent := s, jobs := (jobs w)[k := (fs', fin)]\<rparr>) = finallyCallbacks w"
  by (simp add: finallyCallbacks_def map_update) (metis (no_types, lifting) list_update_id map_update snd_conv)

lemma finallyCallbacks_removeAt:
  "set (finallyCallbacks (w\<lparr>jobs := removeAt k (jobs w)\<rparr>)) \<subseteq> set (finallyCallbacks w)"
  by (auto simp: finallyCallbacks_def removeAt_def dest: in_set_takeD in_set_dropD)

lemma finallyCallbacks_nth:
  assumes "k < length (jobs w)" and "jobs w ! k = (fs, Some cb)"
  shows "cb \<in> set (finallyCallbacks w)"
proof -
  have "(fs, Some cb) \<in> set (jobs w)"
    using assms by (metis nth_mem)
  then show ?thesis
    by (auto simp: finallyCallbacks_def intro!: bexI[of _ "(fs, Some cb)"])
qed

lemma pi_stepJob:
  assumes "pendingInvoke rid p h due ev tf w"
  shows "pendingInvoke rid p h due ev tf (stepJob k w)"
proof (cases "k < length (jobs w)")
  case False
  then show ?thesis using assms by (simp add: stepJob_def)
next
  case True
  obtain fs fin where j: "jobs w ! k = (fs, fin)" by (cases "jobs w ! k")
  show ?thesis
  proof (cases fs)
    case (Cons f fs')
    have "pendingInvoke rid p h due ev tf (w\<lparr>sent := sent w @ [f], jobs := (jobs w)[k := (fs', fin)]\<rparr>)
          = pendingInvoke rid p h due ev tf w"
      by (rule pendingInvoke_cong) (simp_all add: finallyCallbacks_update[OF True j])
    then show ?thesis using assms True j Cons by (simp add: stepJob_def)
  next
    case Nil
    let ?w1 = "w\<lparr>jobs := removeAt k (jobs w)\<rparr>"
    have w1: "pendingInvoke rid p h due ev tf ?w1"
      using assms finallyCallbacks_removeAt[of k w] by (auto simp: pendingInvoke_def)
    show ?thesis
    proof (cases fin)
      case None
      then show ?thesis using w1 True j Nil by (simp add: stepJob_def)
    next
      case (Some cb)
      obtain r q ev' where cb: "cb = TimeoutCallback r q ev'" by (cases cb)
      have "cb \<in> set (finallyCallbacks w)"
        using finallyCallbacks_nth[OF True] j Nil Some by simp
      then have fc: "foreignCallback rid p cb"
        using assms by (simp add: pendingInvoke_def)
      have "pendingInvoke rid p h due ev tf (runFinally (Some cb) ?w1)"
        using w1 fc unfolding cb
        by (auto simp: pendingInvoke_def runTimeout_def finallyCallbacks_def)
      then show ?thesis using True j Nil Some by (simp add: stepJob_def)
    qed
  qed
qed

lemma pi_resume:
  assumes "pendingInvoke rid p h due ev tf w"
  shows "pendingInvoke rid p h due ev tf (resume e k r w)"
proof -
  let ?w1 = "w\<lparr>suspended := removeAt k (suspended w)\<rparr>"
  have w1: "pendingInvoke rid p h due ev tf ?w1"
    using assms by (simp add: pendingInvoke_def finallyCallbacks_def)
  have a: "pendingInvoke rid p h due ev tf (afterCall r ?w1)"
    using w1 pendingInvoke_cong[of "afterCall r ?w1" ?w1] by (simp add: afterCall_fields)
  have b: "pendingInvoke rid p h due ev tf (afterInvoke e re r ?w1)" for re
    using w1 pendingInvoke_cong[of "afterInvoke e re r ?w1" ?w1]
    by (simp add: afterInvoke_fields del: afterInvoke.simps)
  show ?thesis
    using assms a b by (simp add: resume_def split: continuation.splits del: afterInvoke.simps)
qed

lemma pi_step:
  assumes "pendingInvoke rid p h due ev tf w" and "\<not> isDeliverTo rid x"
    and "x = Tick \<longrightarrow> now w + 1 < due"
  shows "pendingInvoke rid p h due ev tf (step e x w)"
proof (cases x)
  case (Deliver k m)
  then have k: "k \<noteq> rid" using assms(2) by simp
  show ?thesis
    using assms(1) pi_route[OF assms(1) k] Deliver
    by (auto simp: onScriptEventRecieved_def split: sum.splits)
next
  case Tick
  then show ?thesis using assms pi_tick by simp
next
  case (StepJob k)
  then show ?thesis using assms pi_stepJob by simp
next
  case (Resume k r)
  then show ?thesis using assms pi_resume by simp
qed


section \<open>What every event preserves\<close>

lemma evolves_refl: "evolves 0 w w"
  by (simp add: evolves_def)

lemma evolves_trans: "evolves m w w1 \<Longrightarrow> evolves n w1 w2 \<Longrightarrow> evolves (m + n) w w2"
  by (auto simp: evolves_def)

lemma calm_refl: "calm 0 w w"
  by (simp add: calm_def evolves_refl)

lemma calm_trans: "calm m w w1 \<Longrightarrow> calm n w1 w2 \<Longrightarrow> calm (m + n) w w2"
  using evolves_trans by (fastforce simp: calm_def)

lemma calm_trans0: "calm 0 w w1 \<Longrightarrow> calm 0 w1 w2 \<Longrightarrow> calm 0 w w2"
  using calm_trans[of 0 w w1 0 w2] by simp

lemma calm_same:
  assumes "now w' = now w" "subscribed w' = subscribed w" "promises w' = promises w"
    "listeners w' = listeners w" "timers w' = timers w" "timersCreated w' = timersCreated w"
  shows "calm 0 w w'"
  by (simp add: calm_def evolves_def assms)

lemma calm_settle: "calm 0 w (settle q s w)"
  by (auto simp: calm_def evolves_def settle_def nth_list_update)

lemma calm_settleWith: "calm 0 w (settleWith tf q v w)"
  by (simp add: settleWith_def calm_settle)

lemma calm_removeListener: "calm 0 w (snd (removeListener r w))"
  by (simp add: calm_def evolves_def removeListener_def)

lemma calm_clearRun: "calm 0 w (clearRun h w)"
  by (simp add: calm_def evolves_def clearRun_def)

lemma calm_apply: "calm 0 w (snd (applyListener l v w))"
proof (cases l)
  case (App f)
  then show ?thesis by (simp add: calm_refl)
next
  case (InvokeResponse r q h tf)
  then show ?thesis
    using calm_trans0[OF calm_trans0[OF calm_removeListener calm_clearRun] calm_settleWith]
    by simp
next
  case (StreamResponse r q tf)
  show ?thesis
  proof (cases "streamTimeoutId w q")
    case None
    then show ?thesis
      using StreamResponse calm_trans0[OF calm_removeListener calm_settleWith] by simp
  next
    case (Some h)
    then show ?thesis
      using StreamResponse
        calm_trans0[OF calm_trans0[OF calm_removeListener calm_clearRun] calm_settleWith]
      by simp
  qed
qed

lemma calm_afterCall: "calm 0 w (afterCall r w)"
  by (rule calm_same) (rule afterCall_fields)+

lemma calm_afterInvoke: "calm 0 w (afterInvoke e re r w)"
  by (rule calm_same) (rule afterInvoke_fields)+

lemma calm_call: "calm 0 w (callListener e l raw w)"
proof (cases "parseRawPayload e raw")
  case (Inl err)
  then show ?thesis by (simp add: callListener_def calm_def evolves_def)
next
  case (Inr v)
  obtain out w1 where a: "applyListener l v w = (out, w1)" by (cases "applyListener l v w")
  have w1: "calm 0 w w1" using calm_apply[of w l v] a by simp
  show ?thesis
  proof (cases out)
    case (Done r)
    then show ?thesis
      using Inr a calm_trans0[OF w1 calm_afterCall] by (simp add: callListener_def)
  next
    case Suspended
    have "calm 0 w1 (w1\<lparr>suspended := suspended w1 @ [CallContinuation]\<rparr>)"
      by (rule calm_same) simp_all
    then show ?thesis
      using Inr a Suspended calm_trans0[OF w1] by (simp add: callListener_def)
  qed
qed

lemma calm_invoke: "calm 0 w (invokeListener e l re raw w)"
proof (cases "parseRawPayload e raw")
  case (Inl err)
  then show ?thesis by (simp add: invokeListener_def calm_def evolves_def)
next
  case (Inr v)
  obtain out w1 where a: "applyListener l v w = (out, w1)" by (cases "applyListener l v w")
  have w1: "calm 0 w w1" using calm_apply[of w l v] a by simp
  show ?thesis
  proof (cases out)
    case (Done r)
    then show ?thesis
      using Inr a calm_trans0[OF w1 calm_afterInvoke]
      by (simp add: invokeListener_def del: afterInvoke.simps)
  next
    case Suspended
    have "calm 0 w1 (w1\<lparr>suspended := suspended w1 @ [InvokeContinuation re]\<rparr>)"
      by (rule calm_same) simp_all
    then show ?thesis
      using Inr a Suspended calm_trans0[OF w1] by (simp add: invokeListener_def)
  qed
qed

lemma calm_pendingStreams: "calm 0 w (w\<lparr>pendingStreams := x\<rparr>)"
  by (rule calm_same) simp_all

lemma calm_routeStream:
  assumes "routeStream e l fl m w = Inr w'"
  shows "calm 0 w w'"
  using assms calm_trans0[OF calm_pendingStreams calm_call] calm_trans0[OF calm_pendingStreams calm_invoke]
  by (auto simp: routeStream_def Let_def calm_pendingStreams split: option.splits if_splits)

lemma calm_route:
  assumes "routeEvent e k m w = Inr w'"
  shows "calm 0 w w'"
  using assms
  by (auto simp: routeEvent_def calm_refl calm_call calm_invoke
      split: option.splits list.splits if_splits intro: calm_routeStream)

lemma calm_runCallback: "calm 0 w (runCallback cb w)"
  using calm_trans0[OF calm_removeListener calm_settle] by (cases cb) simp

lemma calm_fold: "calm 0 w (fold (\<lambda>t. runCallback (snd (snd t))) ts w)"
proof (induction ts arbitrary: w)
  case Nil
  show ?case by (simp add: calm_refl)
next
  case (Cons t ts)
  show ?case using calm_trans0[OF calm_runCallback Cons] by simp
qed

lemma calm_tick: "calm 1 w (tick w)"
proof -
  let ?w0 = "w\<lparr>now := now w + 1, timers := filter (\<lambda>t. \<not> fst (snd t) \<le> now w + 1) (timers w)\<rparr>"
  have "calm 1 w ?w0" by (auto simp: calm_def evolves_def)
  then show ?thesis
    unfolding tick_def using calm_trans[OF _ calm_fold, of 1 w ?w0] by simp
qed

lemma calm_resume: "calm 0 w (resume e k r w)"
proof -
  have "calm 0 w (w\<lparr>suspended := removeAt k (suspended w)\<rparr>)"
    by (rule calm_same) simp_all
  then show ?thesis
    using calm_trans0[OF _ calm_afterCall] calm_trans0[OF _ calm_afterInvoke]
    by (auto simp: resume_def calm_refl split: continuation.splits simp del: afterInvoke.simps)
qed

lemma evolves_runFinally: "evolves 0 w (runFinally fin w)"
proof (cases fin)
  case None
  then show ?thesis by (simp add: evolves_refl)
next
  case (Some cb)
  then show ?thesis by (cases cb) (simp add: evolves_def runTimeout_def)
qed

lemma evolves_stepJob: "evolves 0 w (stepJob k w)"
proof (cases "k < length (jobs w)")
  case False
  then show ?thesis by (simp add: stepJob_def evolves_refl)
next
  case True
  obtain fs fin where j: "jobs w ! k = (fs, fin)" by (cases "jobs w ! k")
  show ?thesis
  proof (cases fs)
    case Nil
    have "evolves 0 w (w\<lparr>jobs := removeAt k (jobs w)\<rparr>)"
      by (simp add: evolves_def)
    then show ?thesis
      using True j Nil evolves_trans[OF _ evolves_runFinally, of 0 w _ fin]
      by (simp add: stepJob_def)
  next
    case (Cons f fs')
    then show ?thesis using True j by (simp add: stepJob_def evolves_def)
  qed
qed

lemma calm_step:
  assumes "\<forall>k. x \<noteq> StepJob k"
  shows "calm (if x = Tick then 1 else 0) w (step e x w)"
proof (cases x)
  case (Deliver k m)
  then show ?thesis
    using calm_route[of e k m w]
    by (auto simp: onScriptEventRecieved_def calm_refl split: sum.splits)
next
  case Tick
  then show ?thesis using calm_tick by simp
next
  case (StepJob k)
  then show ?thesis using assms by simp
next
  case (Resume k r)
  then show ?thesis using calm_resume by simp
qed

lemma evolves_step: "evolves (if x = Tick then 1 else 0) w (step e x w)"
proof (cases "\<exists>k. x = StepJob k")
  case True
  then show ?thesis using evolves_stepJob by auto
next
  case False
  then show ?thesis using calm_step[of x w e] by (simp add: calm_def)
qed

lemma evolves_run: "evolves (count_list es Tick) w (run e es w)"
proof (induction es arbitrary: w)
  case Nil
  show ?case by (simp add: run_def evolves_refl)
next
  case (Cons x es)
  have "evolves ((if x = Tick then 1 else 0) + count_list es Tick) w (run e es (step e x w))"
    using evolves_trans[OF evolves_step Cons] .
  then show ?case by (cases "x = Tick") (auto simp: run_def)
qed

lemma laterTimers_refl: "laterTimers w w"
  by (simp add: laterTimers_def)

lemma laterTimers_trans: "laterTimers w w1 \<Longrightarrow> laterTimers w1 w2 \<Longrightarrow> laterTimers w w2"
  unfolding laterTimers_def by (meson order_trans)

lemma laterTimers_calm: "calm n w w' \<Longrightarrow> laterTimers w w'"
  by (auto simp: calm_def laterTimers_def)

lemma laterTimers_runFinally: "laterTimers w (runFinally fin w)"
proof (cases fin)
  case None
  then show ?thesis by (simp add: laterTimers_refl)
next
  case (Some cb)
  then show ?thesis by (cases cb) (auto simp: laterTimers_def runTimeout_def)
qed

lemma laterTimers_stepJob: "laterTimers w (stepJob k w)"
proof (cases "k < length (jobs w)")
  case False
  then show ?thesis by (simp add: stepJob_def laterTimers_refl)
next
  case True
  obtain fs fin where j: "jobs w ! k = (fs, fin)" by (cases "jobs w ! k")
  show ?thesis
  proof (cases fs)
    case Nil
    have "laterTimers w (w\<lparr>jobs := removeAt k (jobs w)\<rparr>)"
      by (simp add: laterTimers_def)
    then show ?thesis
      using True j Nil laterTimers_trans[OF _ laterTimers_runFinally, of w _ fin]
      by (simp add: stepJob_def)
  next
    case (Cons f fs')
    then show ?thesis using True j by (simp add: stepJob_def laterTimers_def)
  qed
qed

lemma laterTimers_step: "laterTimers w (step e x w)"
proof (cases "\<exists>k. x = StepJob k")
  case True
  then show ?thesis using laterTimers_stepJob by auto
next
  case False
  then show ?thesis using calm_step[of x w e] by (simp add: laterTimers_calm)
qed

lemma laterTimers_run: "laterTimers w (run e es w)"
proof (induction es arbitrary: w)
  case Nil
  show ?case by (simp add: run_def laterTimers_refl)
next
  case (Cons x es)
  show ?case
    using laterTimers_trans[OF laterTimers_step Cons, of w e x] by (simp add: run_def)
qed

lemma run_append: "run e (es @ es') w = run e es' (run e es w)"
  by (simp add: run_def)

lemma run_Cons: "run e (x # es) w = run e es (step e x w)"
  by (simp add: run_def)

lemma pi_run:
  assumes "pendingInvoke rid p h due ev tf w" and "quiet rid es"
    and "now w + count_list es Tick < due"
  shows "pendingInvoke rid p h due ev tf (run e es w)"
  using assms
proof (induction es arbitrary: w)
  case Nil
  then show ?case by (simp add: run_def)
next
  case (Cons x es)
  have q: "\<not> isDeliverTo rid x" "quiet rid es"
    using Cons.prems(2) by (simp_all add: quiet_def)
  have n: "now (step e x w) = now w + (if x = Tick then 1 else 0)"
    using evolves_step[of x w e] by (simp add: evolves_def)
  have "pendingInvoke rid p h due ev tf (step e x w)"
    using Cons.prems(1,3) q(1) by (intro pi_step) auto
  moreover have "now (step e x w) + count_list es Tick < due"
    using Cons.prems(3) n by (auto split: if_splits)
  ultimately show ?case
    using Cons.IH q(2) by (simp add: run_Cons)
qed

lemma foreign_runCallback:
  assumes "foreignCallback rid p cb"
  shows "listeners (runCallback cb w) rid = listeners w rid"
    and "promises (runCallback cb w) ! p = promises w ! p"
    and "length (promises (runCallback cb w)) = length (promises w)"
proof -
  obtain r q ev where cb: "cb = TimeoutCallback r q ev" by (cases cb)
  then have ne: "r \<noteq> rid" "q \<noteq> p"
    using assms by (simp_all add: foreignCallback_def)
  show "listeners (runCallback cb w) rid = listeners w rid"
    using ne by (simp add: cb settle_def removeListener_def)
  show "promises (runCallback cb w) ! p = promises w ! p"
    using ne by (simp add: cb settle_def removeListener_def)
  show "length (promises (runCallback cb w)) = length (promises w)"
    by (simp add: cb settle_def removeListener_def)
qed

lemma foreign_fold:
  assumes "\<forall>t \<in> set ts. foreignCallback rid p (snd (snd t))"
  shows "listeners (fold (\<lambda>t. runCallback (snd (snd t))) ts w) rid = listeners w rid
         \<and> promises (fold (\<lambda>t. runCallback (snd (snd t))) ts w) ! p = promises w ! p
         \<and> length (promises (fold (\<lambda>t. runCallback (snd (snd t))) ts w)) = length (promises w)"
  using assms by (induction ts arbitrary: w) (auto simp: foreign_runCallback)

lemma timeout_fire:
  assumes "pendingInvoke rid p h due ev tf w" and "now w + 1 = due"
  shows "listeners (tick w) rid = None \<and> p < length (promises (tick w))
         \<and> promises (tick w) ! p = Rejected (TimedOut ev)
         \<and> (\<forall>t \<in> set (timers (tick w)). fst t \<noteq> h) \<and> h < timersCreated (tick w)"
proof -
  let ?n = "now w + 1"
  let ?ours = "(h, due, TimeoutCallback rid p ev)"
  let ?D = "filter (\<lambda>t. fst (snd t) \<le> ?n) (timers w)"
  let ?w0 = "w\<lparr>now := ?n, timers := filter (\<lambda>t. \<not> fst (snd t) \<le> ?n) (timers w)\<rparr>"
  let ?run = "fold (\<lambda>t. runCallback (snd (snd t)))"
  have f: "filter (\<lambda>t. fst t = h) (timers w) = [?ours]"
    and o: "\<forall>t \<in> set (timers w). fst t \<noteq> h \<longrightarrow> foreignCallback rid p (snd (snd t))"
    and pend: "p < length (promises w)" "promises w ! p = Pending"
    using assms(1) by (simp_all add: pendingInvoke_def)
  have "filter (\<lambda>t. fst t = h) ?D = filter (\<lambda>t. fst (snd t) \<le> ?n) (filter (\<lambda>t. fst t = h) (timers w))"
    by (simp add: conj_commute)
  then have fD: "filter (\<lambda>t. fst t = h) ?D = [?ours]"
    unfolding f using assms(2) by simp
  from fD obtain xs ys where D: "?D = xs @ ?ours # ys"
    and fx0: "\<forall>u \<in> set xs. fst u \<noteq> h" and fy0: "[] = filter (\<lambda>t. fst t = h) ys"
    unfolding filter_eq_Cons_iff by blast
  have fxy: "\<forall>u \<in> set xs. fst u \<noteq> h" "\<forall>u \<in> set ys. fst u \<noteq> h"
    using fx0 fy0 by (simp_all add: filter_empty_conv[symmetric] eq_commute[of "[]"])
  have sub: "set xs \<subseteq> set (timers w)" "set ys \<subseteq> set (timers w)"
  proof -
    have "set ?D \<subseteq> set (timers w)" by (rule filter_is_subset)
    then show "set xs \<subseteq> set (timers w)" "set ys \<subseteq> set (timers w)"
      unfolding D by simp_all
  qed
  have fx: "\<forall>t \<in> set xs. foreignCallback rid p (snd (snd t))"
    using fxy(1) sub(1) o by blast
  have fy: "\<forall>t \<in> set ys. foreignCallback rid p (snd (snd t))"
    using fxy(2) sub(2) o by blast
  let ?w1 = "?run xs ?w0"
  have w1: "promises ?w1 ! p = Pending" "length (promises ?w1) = length (promises w)"
    using foreign_fold[OF fx, of ?w0] pend by simp_all
  let ?w2 = "runCallback (TimeoutCallback rid p ev) ?w1"
  have w2: "listeners ?w2 rid = None" "promises ?w2 ! p = Rejected (TimedOut ev)"
    "length (promises ?w2) = length (promises w)"
    using w1 pend(1) by (simp_all add: settle_def removeListener_def)
  have "tick w = ?run ys ?w2"
    unfolding tick_def D by simp
  then have main: "listeners (tick w) rid = None \<and> p < length (promises (tick w))
         \<and> promises (tick w) ! p = Rejected (TimedOut ev)"
    using foreign_fold[OF fy, of ?w2] w2 pend(1) by simp
  have c: "calm 0 ?w0 (tick w)"
    unfolding tick_def by (rule calm_fold)
  have gone: "fst t \<noteq> h" if "t \<in> set (timers (tick w))" for t
  proof
    assume eq: "fst t = h"
    have "t \<in> set (timers ?w0)" using c that by (auto simp: calm_def)
    then have nd: "\<not> fst (snd t) \<le> ?n" and "t \<in> set (timers w)" by simp_all
    then have "t \<in> set (filter (\<lambda>t. fst t = h) (timers w))" using eq by simp
    then have "t = ?ours" unfolding f by simp
    then show False using nd assms(2) by simp
  qed
  have "h < timersCreated (tick w)"
    using c assms(1) by (simp add: calm_def pendingInvoke_def)
  then show ?thesis using main gone by blast
qed

lemma respond:
  assumes "pendingInvoke rid p h due ev tf w" and "subscribed w"
    and "parseRawPayload e (Some raw) = Inr v"
  shows "p < length (promises (step e (Deliver rid (flagChar e Send # raw)) w))
         \<and> promises (step e (Deliver rid (flagChar e Send # raw)) w) ! p
             = (if isFailure v \<and> tf then Rejected (Thrown v) else Resolved v)
         \<and> listeners (step e (Deliver rid (flagChar e Send # raw)) w) rid = None
         \<and> filter (\<lambda>t. fst t = h) (timers (step e (Deliver rid (flagChar e Send # raw)) w)) = []
         \<and> timers (step e (Deliver rid (flagChar e Send # raw)) w)
             = filter (\<lambda>t. fst t \<noteq> h) (timers w)
         \<and> h < timersCreated (step e (Deliver rid (flagChar e Send # raw)) w)"
proof -
  have l: "listeners w rid = Some (InvokeResponse rid p h tf)"
    and pend: "p < length (promises w)" "promises w ! p = Pending" "h < timersCreated w"
    using assms(1) by (simp_all add: pendingInvoke_def)
  have "step e (Deliver rid (flagChar e Send # raw)) w
        = callListener e (InvokeResponse rid p h tf) (Some raw) w"
    using assms(2) routeEvent_send[OF l] by (simp add: onScriptEventRecieved_def)
  also have "\<dots> = settleWith tf p v (clearRun h (snd (removeListener rid w)))"
    using assms(3) by (simp add: callListener_def)
  finally have eq: "step e (Deliver rid (flagChar e Send # raw)) w
        = settleWith tf p v (clearRun h (snd (removeListener rid w)))" .
  show ?thesis
    unfolding eq
    by (intro conjI; use pend in \<open>simp add: settleWith_def settle_def clearRun_def removeListener_def\<close>)
qed

lemma ignored:
  assumes "listeners w rid = None"
  shows "step e (Deliver rid m) w = w"
  using assms by (simp add: onScriptEventRecieved_def routeEvent_def)


section \<open>The timeout of an invoke\<close>

text \<open>
  Claim C3. An invoke under an unused response listener id, whose request is sent, by a
  subscribed router. Along every trace of events that delivers nothing under the response
  id: while fewer than 20 ticks have passed the promise is pending, the response listener
  is registered and exactly one timer has the handle of this invoke, the one that carries
  its timeout callback, due 20 ticks after the call. A response frame routed then removes
  exactly the timers with that handle, and whatever happens afterwards the promise keeps
  the value of the response, the listener stays removed, no timer has that handle, so that
  the timeout never fires, and a further frame under the response id changes nothing at
  all. Without a response the 20th tick rejects the promise with the timeout error and
  removes the listener; whatever happens afterwards the rejection stays, the listener stays
  removed, no timer has that handle, and a frame delivered under the response id changes
  nothing at all.
\<close>

theorem invoke_timeout:
  assumes "unused rid w" and "force \<or> length (rid @ [SP] @ content) \<le> MAX_MESSAGE_LENGTH"
    and "subscribed w" and "quiet rid es"
  shows
    "(let p = fst (invokeInternal e ev content force tf rid w);
          w1 = snd (invokeInternal e ev content force tf rid w);
          h = timersCreated w
      in (count_list es Tick < 20 \<longrightarrow>
            promises (run e es w1) ! p = Pending
            \<and> listeners (run e es w1) rid = Some (InvokeResponse rid p h tf)
            \<and> filter (\<lambda>t. fst t = h) (timers (run e es w1))
                = [(h, now w + 20, TimeoutCallback rid p ev)]
            \<and> (\<forall>raw v. parseRawPayload e (Some raw) = Inr v \<longrightarrow>
                  timers (run e (es @ [Deliver rid (flagChar e Send # raw)]) w1)
                    = filter (\<lambda>t. fst t \<noteq> h) (timers (run e es w1))
                  \<and> (\<forall>es2.
                        promises (run e (es @ Deliver rid (flagChar e Send # raw) # es2) w1) ! p
                          = (if isFailure v \<and> tf then Rejected (Thrown v) else Resolved v)
                        \<and> listeners (run e (es @ Deliver rid (flagChar e Send # raw) # es2) w1) rid
                            = None
                        \<and> (\<forall>t \<in> set (timers
                                 (run e (es @ Deliver rid (flagChar e Send # raw) # es2) w1)).
                              fst t \<noteq> h)
                        \<and> (\<forall>m. run e (es @ Deliver rid (flagChar e Send # raw) # es2
                                        @ [Deliver rid m]) w1
                                 = run e (es @ Deliver rid (flagChar e Send # raw) # es2) w1))))
         \<and> (count_list es Tick = 19 \<longrightarrow>
            (\<forall>es2. promises (run e (es @ Tick # es2) w1) ! p = Rejected (TimedOut ev)
                  \<and> listeners (run e (es @ Tick # es2) w1) rid = None
                  \<and> (\<forall>t \<in> set (timers (run e (es @ Tick # es2) w1)). fst t \<noteq> h)
                  \<and> (\<forall>m. run e (es @ Tick # es2 @ [Deliver rid m]) w1
                           = run e (es @ Tick # es2) w1))))"
proof -
  let ?p = "length (promises w)" and ?h = "timersCreated w"
  let ?w1 = "snd (invokeInternal e ev content force tf rid w)"
  have p: "fst (invokeInternal e ev content force tf rid w) = ?p"
    by (simp add: invokeInternal_eq[OF assms(2)])
  have w1: "now ?w1 = now w" "subscribed ?w1"
    using assms(3) by (simp_all add: invokeInternal_eq[OF assms(2)])
  note inv1 = establish[OF assms(1,2), of ev tf e]
  let ?w2 = "run e es ?w1"
  have ev2: "evolves (count_list es Tick) ?w1 ?w2"
    by (rule evolves_run)
  have sub2: "subscribed ?w2" and now2: "now ?w2 = now w + count_list es Tick"
    using ev2 w1 by (simp_all add: evolves_def)
  have early: "pendingInvoke rid ?p ?h (now w + 20) ev tf ?w2" if "count_list es Tick < 20"
    using that w1(1) by (intro pi_run[OF inv1 assms(4)]) simp
  have A1: "promises ?w2 ! ?p = Pending"
      "listeners ?w2 rid = Some (InvokeResponse rid ?p ?h tf)"
      "filter (\<lambda>t. fst t = ?h) (timers ?w2) = [(?h, now w + 20, TimeoutCallback rid ?p ev)]"
    if "count_list es Tick < 20"
    using early[OF that] by (simp_all add: pendingInvoke_def)
  have stable: "promises (run e es2 w') ! ?p = promises w' ! ?p"
    "listeners w' rid = None \<Longrightarrow> listeners (run e es2 w') rid = None"
    if "promises w' ! ?p \<noteq> Pending" for w' es2
    using evolves_run[of es2 w' e] that by (simp_all add: evolves_def)
  have later: "fst t \<noteq> ?h"
    if "\<forall>t \<in> set (timers w'). fst t \<noteq> ?h" "?h < timersCreated w'"
      "t \<in> set (timers (run e es2 w'))" for w' es2 t
  proof -
    have "t \<in> set (timers w') \<or> timersCreated w' \<le> fst t"
      using laterTimers_run[of w' e es2] that(3) by (simp add: laterTimers_def)
    then show ?thesis using that(1,2) by auto
  qed
  have after: "promises (run e es2 w') ! ?p = promises w' ! ?p
               \<and> listeners (run e es2 w') rid = None
               \<and> (\<forall>t \<in> set (timers (run e es2 w')). fst t \<noteq> ?h)
               \<and> (\<forall>m. run e (es2 @ [Deliver rid m]) w' = run e es2 w')"
    if "promises w' ! ?p \<noteq> Pending" "listeners w' rid = None"
      "\<forall>t \<in> set (timers w'). fst t \<noteq> ?h" "?h < timersCreated w'" for w' es2
  proof -
    have a: "promises (run e es2 w') ! ?p = promises w' ! ?p"
      by (rule stable(1)[OF that(1)])
    have b: "listeners (run e es2 w') rid = None"
      by (rule stable(2)[OF that(1,2)])
    have c: "\<forall>t \<in> set (timers (run e es2 w')). fst t \<noteq> ?h"
      using later[OF that(3,4)] by blast
    have d: "run e (es2 @ [Deliver rid m]) w' = run e es2 w'" for m
      using ignored[OF b, of e m] by (simp add: run_def)
    show ?thesis using a b c d by blast
  qed
  have A2: "timers (run e (es @ [Deliver rid (flagChar e Send # raw)]) ?w1)
              = filter (\<lambda>t. fst t \<noteq> ?h) (timers ?w2)
            \<and> (\<forall>es2.
                  promises (run e (es @ Deliver rid (flagChar e Send # raw) # es2) ?w1) ! ?p
                    = (if isFailure v \<and> tf then Rejected (Thrown v) else Resolved v)
                  \<and> listeners (run e (es @ Deliver rid (flagChar e Send # raw) # es2) ?w1) rid
                      = None
                  \<and> (\<forall>t \<in> set (timers
                           (run e (es @ Deliver rid (flagChar e Send # raw) # es2) ?w1)).
                        fst t \<noteq> ?h)
                  \<and> (\<forall>m. run e (es @ Deliver rid (flagChar e Send # raw) # es2
                                  @ [Deliver rid m]) ?w1
                           = run e (es @ Deliver rid (flagChar e Send # raw) # es2) ?w1))"
    if "count_list es Tick < 20" "parseRawPayload e (Some raw) = Inr v" for raw v
  proof -
    let ?d = "Deliver rid (flagChar e Send # raw)"
    define w3 where "w3 = step e ?d ?w2"
    note r = respond[OF early[OF that(1)] sub2 that(2), folded w3_def]
    have r1: "promises w3 ! ?p = (if isFailure v \<and> tf then Rejected (Thrown v) else Resolved v)"
      and r2: "listeners w3 rid = None"
      and r4: "timers w3 = filter (\<lambda>t. fst t \<noteq> ?h) (timers ?w2)"
      and r5: "?h < timersCreated w3"
      using r by blast+
    have ne: "promises w3 ! ?p \<noteq> Pending" using r1 by (simp split: if_splits)
    have none: "\<forall>t \<in> set (timers w3). fst t \<noteq> ?h"
      unfolding r4 by simp
    have e1: "run e [] w3 = w3"
      by (simp add: run_def)
    have e2: "run e (es @ ?d # es2) ?w1 = run e es2 w3" for es2
      unfolding w3_def by (simp add: run_def)
    have e3: "run e (es @ ?d # es2 @ [Deliver rid m]) ?w1 = run e (es2 @ [Deliver rid m]) w3"
      for es2 m
      unfolding w3_def by (simp add: run_def)
    show ?thesis
      unfolding e2 e3 e1 using after[OF ne r2 none r5] r1 r4 by simp
  qed
  have B: "promises (run e (es @ Tick # es2) ?w1) ! ?p = Rejected (TimedOut ev)
           \<and> listeners (run e (es @ Tick # es2) ?w1) rid = None
           \<and> (\<forall>t \<in> set (timers (run e (es @ Tick # es2) ?w1)). fst t \<noteq> ?h)
           \<and> (\<forall>m. run e (es @ Tick # es2 @ [Deliver rid m]) ?w1 = run e (es @ Tick # es2) ?w1)"
    if "count_list es Tick = 19" for es2
  proof -
    have lt: "count_list es Tick < 20" using that by simp
    have nw: "now ?w2 + 1 = now w + 20" using now2 that by simp
    define w3 where "w3 = tick ?w2"
    note t = timeout_fire[OF early[OF lt] nw, folded w3_def]
    have t1: "promises w3 ! ?p = Rejected (TimedOut ev)"
      and t2: "listeners w3 rid = None"
      and t3: "\<forall>t \<in> set (timers w3). fst t \<noteq> ?h"
      and t4: "?h < timersCreated w3"
      using t by blast+
    have ne: "promises w3 ! ?p \<noteq> Pending" using t1 by simp
    have e2: "run e (es @ Tick # es2) ?w1 = run e es2 w3"
      unfolding w3_def by (simp add: run_def)
    have e3: "run e (es @ Tick # es2 @ [Deliver rid m]) ?w1 = run e (es2 @ [Deliver rid m]) w3"
      for m
      unfolding w3_def by (simp add: run_def)
    show ?thesis
      unfolding e2 e3 using after[OF ne t2 t3 t4, of es2] t1 by simp
  qed
  show ?thesis
    unfolding Let_def p using A1 A2 B by blast
qed

lemma count_replicate_Tick: "count_list (replicate n Tick) Tick = n"
  by (induction n) simp_all

theorem invoke_timeout_witness:
  "promises (run (exampleEnv [JNull]) (replicate 19 Tick @ [Tick])
      (snd (invokeInternal (exampleEnv [JNull]) (str ''ns:h'') (str ''null'') False False
              (str ''a:__0'') (initialWorld (str ''a'')))))
     ! fst (invokeInternal (exampleEnv [JNull]) (str ''ns:h'') (str ''null'') False False
              (str ''a:__0'') (initialWorld (str ''a'')))
   = Rejected (TimedOut (str ''ns:h''))
   \<and> promises (run (exampleEnv [JNull])
        (replicate 19 Tick @ [Deliver (str ''a:__0'') (0x30 # str ''null''), Tick])
      (snd (invokeInternal (exampleEnv [JNull]) (str ''ns:h'') (str ''null'') False False
              (str ''a:__0'') (initialWorld (str ''a'')))))
     ! fst (invokeInternal (exampleEnv [JNull]) (str ''ns:h'') (str ''null'') False False
              (str ''a:__0'') (initialWorld (str ''a'')))
   = Resolved JNull
   \<and> filter (\<lambda>t. fst t = 0) (timers (run (exampleEnv [JNull]) (replicate 19 Tick)
      (snd (invokeInternal (exampleEnv [JNull]) (str ''ns:h'') (str ''null'') False False
              (str ''a:__0'') (initialWorld (str ''a''))))))
     = [(0, 20, TimeoutCallback (str ''a:__0'') 0 (str ''ns:h''))]
   \<and> filter (\<lambda>t. fst t = 0) (timers (run (exampleEnv [JNull])
        (replicate 19 Tick @ [Deliver (str ''a:__0'') (0x30 # str ''null''), Tick])
      (snd (invokeInternal (exampleEnv [JNull]) (str ''ns:h'') (str ''null'') False False
              (str ''a:__0'') (initialWorld (str ''a''))))))
     = []"
proof -
  let ?e = "exampleEnv [JNull]"
  let ?w = "initialWorld (str ''a'')"
  let ?i = "invokeInternal ?e (str ''ns:h'') (str ''null'') False False (str ''a:__0'') ?w"
  let ?d = "Deliver (str ''a:__0'') (flagChar ?e Send # str ''null'')"
  have u: "unused (str ''a:__0'') ?w"
    by (simp add: unused_def initialWorld_def finallyCallbacks_def)
  have len: "False \<or> length (str ''a:__0'' @ [SP] @ str ''null'') \<le> MAX_MESSAGE_LENGTH"
    by (simp add: str_def MAX_MESSAGE_LENGTH_def)
  have s: "subscribed ?w"
    by (simp add: initialWorld_def)
  have q: "quiet (str ''a:__0'') (replicate 19 Tick)"
    by (simp add: quiet_def list_all_iff)
  have fl: "flagChar ?e Send = 0x30"
    by (simp add: exampleEnv_def)
  have f: "timersCreated ?w = 0" "now ?w = 0" "fst ?i = 0"
    by (simp_all add: initialWorld_def invokeInternal_eq[OF len])
  note t = invoke_timeout[OF u len s q, of ?e "str ''ns:h''" False,
      unfolded Let_def count_replicate_Tick]
  have 1: "(19::nat) < 20" "(19::nat) = 19" by simp_all
  note early = t[THEN conjunct1, rule_format, OF 1(1)]
  note late = t[THEN conjunct2, rule_format, OF 1(2), of "[]"]
  note resp = early[THEN conjunct2, THEN conjunct2, THEN conjunct2, rule_format,
      OF null_frame(3), THEN conjunct2, rule_format, of "[Tick]"]
  have a: "promises (run ?e (replicate 19 Tick @ [Tick]) (snd ?i)) ! fst ?i
           = Rejected (TimedOut (str ''ns:h''))"
    using late[THEN conjunct1] .
  have b: "promises (run ?e (replicate 19 Tick @ [?d, Tick]) (snd ?i)) ! fst ?i = Resolved JNull"
    using resp[THEN conjunct1] by simp
  have c: "filter (\<lambda>t. fst t = 0) (timers (run ?e (replicate 19 Tick) (snd ?i)))
           = [(0, 20, TimeoutCallback (str ''a:__0'') 0 (str ''ns:h''))]"
    using early[THEN conjunct2, THEN conjunct2, THEN conjunct1] by (simp add: f)
  have "\<forall>t \<in> set (timers (run ?e (replicate 19 Tick @ [?d, Tick]) (snd ?i))). fst t \<noteq> 0"
    using resp[THEN conjunct2, THEN conjunct2, THEN conjunct1] by (simp add: f)
  then have d: "filter (\<lambda>t. fst t = 0) (timers (run ?e (replicate 19 Tick @ [?d, Tick]) (snd ?i)))
                = []"
    by (simp add: filter_empty_conv)
  show ?thesis using a b c d by (simp add: fl)
qed


section \<open>Transmissions step by step\<close>

lemma stepJob_partial:
  "k < length (jobs w) \<Longrightarrow> jobs w ! k = (fs, fin) \<Longrightarrow> n \<le> length fs \<Longrightarrow>
     (stepJob k ^^ n) w = w\<lparr>sent := sent w @ take n fs, jobs := (jobs w)[k := (drop n fs, fin)]\<rparr>"
proof (induction n arbitrary: w fs)
  case 0
  then have "(jobs w)[k := (fs, fin)] = jobs w"
    by (metis list_update_id)
  then show ?case by simp
next
  case (Suc n)
  then obtain f fs' where fs: "fs = f # fs'" by (cases fs) auto
  let ?w1 = "w\<lparr>sent := sent w @ [f], jobs := (jobs w)[k := (fs', fin)]\<rparr>"
  have s1: "stepJob k w = ?w1"
    using Suc.prems fs by (simp add: stepJob_def)
  have "(stepJob k ^^ n) ?w1
        = ?w1\<lparr>sent := sent ?w1 @ take n fs', jobs := (jobs ?w1)[k := (drop n fs', fin)]\<rparr>"
    using Suc.prems fs by (intro Suc.IH) simp_all
  then show ?case
    by (simp add: funpow_swap1 s1 fs)
qed

lemma stepJob_finish:
  "k < length (jobs w) \<Longrightarrow> jobs w ! k = ([], Some cb) \<Longrightarrow>
     stepJob k w = (runFinally (Some cb) (w\<lparr>jobs := removeAt k (jobs w)\<rparr>))"
  by (simp add: stepJob_def)

lemma timers_runFinally:
  "timers (runFinally (Some cb) w) = timers w @ [(timersCreated w, now w + 20, cb)]"
  "promises (runFinally (Some cb) w) = promises w"
  "listeners (runFinally (Some cb) w) = listeners w"
  by (cases cb; simp add: runTimeout_def)+

lemma stepJob_complete:
  assumes "k < length (jobs w)" and "jobs w ! k = (fs, Some cb)"
  shows "timers ((stepJob k ^^ Suc (length fs)) w) = timers w @ [(timersCreated w, now w + 20, cb)]"
    and "promises ((stepJob k ^^ Suc (length fs)) w) = promises w"
    and "listeners ((stepJob k ^^ Suc (length fs)) w) = listeners w"
proof -
  let ?w1 = "w\<lparr>sent := sent w @ fs, jobs := (jobs w)[k := ([], Some cb)]\<rparr>"
  have d: "(stepJob k ^^ length fs) w = ?w1"
    using stepJob_partial[OF assms, of "length fs"] by simp
  have f: "stepJob k ?w1 = runFinally (Some cb) (?w1\<lparr>jobs := removeAt k (jobs ?w1)\<rparr>)"
    using assms(1) by (intro stepJob_finish) simp_all
  show "timers ((stepJob k ^^ Suc (length fs)) w) = timers w @ [(timersCreated w, now w + 20, cb)]"
    and "promises ((stepJob k ^^ Suc (length fs)) w) = promises w"
    and "listeners ((stepJob k ^^ Suc (length fs)) w) = listeners w"
    by (simp_all add: d f timers_runFinally del: runFinally.simps)
qed

lemma runCallback_settled:
  assumes "listeners w rid = None" and "promises w ! p \<noteq> Pending"
  shows "runCallback (TimeoutCallback rid p ev) w = w"
proof -
  have "(listeners w)(rid := None) = listeners w"
    using assms(1) by (simp add: fun_upd_idem)
  then show ?thesis
    using assms(2) by (simp add: settle_def removeListener_def)
qed

lemma invokeStreamInternal_eq:
  "invokeStreamInternal e ev content force tf rid sid w =
     (length (promises w),
      w\<lparr>promises := promises w @ [Pending],
        listeners := (listeners w)(rid \<mapsto> StreamResponse rid (length (promises w)) tf),
        jobs := jobs w @ [(streamFrames e InvokeStream ev sid (rid @ SP # content),
                           Some (TimeoutCallback rid (length (promises w)) ev))]\<rparr>)"
  by (simp add: invokeStreamInternal_def newPromise_def setListener_def sendStreamInternal_def)


section \<open>The timeout of a streamed invoke\<close>

text \<open>
  Claim C9, amended. \<open>invokeStreamInternal\<close> creates no timer; it queues the chunk
  frames with the callback that arms the timer. While the frames go out, one per step, no
  timer is created; the step after the last frame arms the timer, due 20 ticks from that
  moment. A response routed before that settles the promise and removes the listener; the
  timer is armed all the same when the transmission completes, and its callback, run
  against the settled promise and the removed listener, changes nothing. No event other
  than the step of a transmission creates a timer, and a step that emits a frame creates
  none.
\<close>

theorem invokeStream_timer:
  assumes "subscribed w" and "streamTimeoutId w (length (promises w)) = None"
  shows
    "(let p = fst (invokeStreamInternal e ev content force tf rid sid w);
          w1 = snd (invokeStreamInternal e ev content force tf rid sid w);
          frames = streamFrames e InvokeStream ev sid (rid @ [SP] @ content);
          cb = TimeoutCallback rid p ev;
          k = length (jobs w)
      in timers w1 = timers w
         \<and> jobs w1 = jobs w @ [(frames, Some cb)]
         \<and> (\<forall>n \<le> length frames.
               timers ((stepJob k ^^ n) w1) = timers w
               \<and> sent ((stepJob k ^^ n) w1) = sent w @ take n frames)
         \<and> timers ((stepJob k ^^ Suc (length frames)) w1)
             = timers w @ [(timersCreated w, now w + 20, cb)]
         \<and> (\<forall>n \<le> length frames. \<forall>raw v. parseRawPayload e (Some raw) = Inr v \<longrightarrow>
               (let w2 = step e (Deliver rid (flagChar e Send # raw)) ((stepJob k ^^ n) w1);
                    w3 = (stepJob k ^^ (Suc (length frames) - n)) w2
                in promises w2
                     = promises w @ [if isFailure v \<and> tf then Rejected (Thrown v) else Resolved v]
                   \<and> listeners w2 rid = None
                   \<and> timers w2 = timers w
                   \<and> timers w3 = timers w @ [(timersCreated w, now w + 20, cb)]
                   \<and> promises w3 = promises w2 \<and> listeners w3 rid = None))
         \<and> (\<forall>w'. listeners w' rid = None \<and> promises w' ! p \<noteq> Pending \<longrightarrow> runCallback cb w' = w'))
     \<and> (\<forall>w' x. (\<forall>j. x \<noteq> StepJob j) \<longrightarrow> set (timers (step e x w')) \<subseteq> set (timers w'))
     \<and> (\<forall>w' j f fs fin. j < length (jobs w') \<and> jobs w' ! j = (f # fs, fin) \<longrightarrow>
            timers (stepJob j w') = timers w')"
proof -
  let ?p = "length (promises w)" and ?k = "length (jobs w)"
  let ?frames = "streamFrames e InvokeStream ev sid (rid @ SP # content)"
  let ?cb = "TimeoutCallback rid ?p ev"
  let ?w1 = "w\<lparr>promises := promises w @ [Pending],
        listeners := (listeners w)(rid \<mapsto> StreamResponse rid ?p tf),
        jobs := jobs w @ [(?frames, Some ?cb)]\<rparr>"
  have inv: "invokeStreamInternal e ev content force tf rid sid w = (?p, ?w1)"
    by (rule invokeStreamInternal_eq)
  have j: "?k < length (jobs ?w1)" "jobs ?w1 ! ?k = (?frames, Some ?cb)"
    by simp_all
  have part: "(stepJob ?k ^^ n) ?w1
      = ?w1\<lparr>sent := sent ?w1 @ take n ?frames, jobs := (jobs ?w1)[?k := (drop n ?frames, Some ?cb)]\<rparr>"
    if "n \<le> length ?frames" for n
    using stepJob_partial[OF j that] .
  have A: "timers ((stepJob ?k ^^ n) ?w1) = timers w
           \<and> sent ((stepJob ?k ^^ n) ?w1) = sent w @ take n ?frames"
    if "n \<le> length ?frames" for n
    unfolding part[OF that] by simp
  have B: "timers ((stepJob ?k ^^ Suc (length ?frames)) ?w1)
             = timers w @ [(timersCreated w, now w + 20, ?cb)]"
    using stepJob_complete(1)[OF j] by simp
  have C: "(let w2 = step e (Deliver rid (flagChar e Send # raw)) ((stepJob ?k ^^ n) ?w1);
                w3 = (stepJob ?k ^^ (Suc (length ?frames) - n)) w2
            in promises w2
                 = promises w @ [if isFailure v \<and> tf then Rejected (Thrown v) else Resolved v]
               \<and> listeners w2 rid = None
               \<and> timers w2 = timers w
               \<and> timers w3 = timers w @ [(timersCreated w, now w + 20, ?cb)]
               \<and> promises w3 = promises w2 \<and> listeners w3 rid = None)"
    if n: "n \<le> length ?frames" and pr: "parseRawPayload e (Some raw) = Inr v" for n raw v
  proof -
    define wn where "wn = (stepJob ?k ^^ n) ?w1"
    have wn: "listeners wn rid = Some (StreamResponse rid ?p tf)" "subscribed wn"
      "streamTimeoutId wn ?p = None" "promises wn = promises w @ [Pending]"
      "timers wn = timers w" "timersCreated wn = timersCreated w" "now wn = now w"
      "jobs wn = (jobs ?w1)[?k := (drop n ?frames, Some ?cb)]"
      unfolding wn_def part[OF n] using assms by simp_all
    define w2 where "w2 = step e (Deliver rid (flagChar e Send # raw)) wn"
    have "w2 = callListener e (StreamResponse rid ?p tf) (Some raw) wn"
      unfolding w2_def using wn(2) routeEvent_send[OF wn(1)] by (simp add: onScriptEventRecieved_def)
    also have "\<dots> = settleWith tf ?p v (snd (removeListener rid wn))"
      using pr wn(3) by (simp add: callListener_def)
    finally have eq: "w2 = settleWith tf ?p v (snd (removeListener rid wn))" .
    have w2: "promises w2
                = promises w @ [if isFailure v \<and> tf then Rejected (Thrown v) else Resolved v]"
      "listeners w2 rid = None" "timers w2 = timers w" "timersCreated w2 = timersCreated w"
      "now w2 = now w" "jobs w2 = (jobs ?w1)[?k := (drop n ?frames, Some ?cb)]"
      unfolding eq
      by (simp_all add: settleWith_def settle_def removeListener_def wn nth_append)
    have j2: "?k < length (jobs w2)" "jobs w2 ! ?k = (drop n ?frames, Some ?cb)"
      unfolding w2(6) by simp_all
    have steps: "Suc (length ?frames) - n = Suc (length (drop n ?frames))"
      using n by simp
    note c = stepJob_complete[OF j2]
    have "promises w2
                 = promises w @ [if isFailure v \<and> tf then Rejected (Thrown v) else Resolved v]
               \<and> listeners w2 rid = None
               \<and> timers w2 = timers w
               \<and> timers ((stepJob ?k ^^ (Suc (length ?frames) - n)) w2)
                   = timers w @ [(timersCreated w, now w + 20, ?cb)]
               \<and> promises ((stepJob ?k ^^ (Suc (length ?frames) - n)) w2) = promises w2
               \<and> listeners ((stepJob ?k ^^ (Suc (length ?frames) - n)) w2) rid = None"
      unfolding steps using c w2 by simp
    then show ?thesis
      unfolding Let_def w2_def wn_def .
  qed
  have D: "runCallback ?cb w' = w'" if "listeners w' rid = None \<and> promises w' ! ?p \<noteq> Pending" for w'
    using that runCallback_settled by blast
  have E: "set (timers (step e x w')) \<subseteq> set (timers w')" if "\<forall>j. x \<noteq> StepJob j" for w' x
    using calm_step[OF that, of w' e] by (simp add: calm_def)
  have F: "timers (stepJob j w') = timers w'"
    if "j < length (jobs w') \<and> jobs w' ! j = (f # fs, fin)" for w' j f fs fin
    using that by (simp add: stepJob_emit)
  have main: "timers ?w1 = timers w \<and> jobs ?w1 = jobs w @ [(?frames, Some ?cb)]"
    by simp
  show ?thesis
    unfolding Let_def inv fst_conv snd_conv append_Cons append_Nil
    using main A B C[unfolded Let_def] D E F by blast
qed

lemma tick_wait:
  assumes "\<forall>t \<in> set (timers w). now w + 1 < fst (snd t)"
  shows "tick w = w\<lparr>now := now w + 1\<rparr>"
proof -
  have "filter (\<lambda>t. fst (snd t) \<le> now w + 1) (timers w) = []"
    using assms by (auto simp: filter_empty_conv)
  moreover have "filter (\<lambda>t. \<not> fst (snd t) \<le> now w + 1) (timers w) = timers w"
    using assms by (auto simp: filter_id_conv)
  ultimately show ?thesis by (simp add: tick_def)
qed

lemma run_ticks_wait:
  assumes "\<forall>t \<in> set (timers w). now w + n < fst (snd t)"
  shows "run e (replicate n Tick) w = w\<lparr>now := now w + n\<rparr>"
  using assms
proof (induction n arbitrary: w)
  case 0
  then show ?case by (simp add: run_def)
next
  case (Suc n)
  have "tick w = w\<lparr>now := now w + 1\<rparr>"
    using Suc.prems by (intro tick_wait) auto
  moreover have "run e (replicate n Tick) (w\<lparr>now := now w + 1\<rparr>)
                 = (w\<lparr>now := now w + 1\<rparr>)\<lparr>now := now (w\<lparr>now := now w + 1\<rparr>) + n\<rparr>"
    using Suc.prems by (intro Suc.IH) auto
  ultimately show ?case by (simp add: run_Cons)
qed


text \<open>
  Claim C9 as stated fails in its last part: after a response that arrives before the
  timer is armed, the completion of the transmission arms the timer, and 20 ticks later
  it fires. The promise keeps the value of the response.
\<close>

theorem invokeStream_timer_counterexample:
  "jobs streamCaller
     = [([(str ''ns:h'', 0x33 # str ''a0 t a:__0 null'')],
         Some (TimeoutCallback (str ''a:__0'') 0 (str ''ns:h'')))]
   \<and> promises (run (exampleEnv [JNull])
         [StepJob 0, Deliver (str ''a:__0'') (0x30 # str ''null''), StepJob 0] streamCaller)
       = [Resolved JNull]
   \<and> timers (run (exampleEnv [JNull])
         [StepJob 0, Deliver (str ''a:__0'') (0x30 # str ''null''), StepJob 0] streamCaller)
       = [(0, 20, TimeoutCallback (str ''a:__0'') 0 (str ''ns:h''))]
   \<and> timers (run (exampleEnv [JNull])
         ([StepJob 0, Deliver (str ''a:__0'') (0x30 # str ''null''), StepJob 0] @ replicate 19 Tick)
         streamCaller)
       = [(0, 20, TimeoutCallback (str ''a:__0'') 0 (str ''ns:h''))]
   \<and> timers (run (exampleEnv [JNull])
         ([StepJob 0, Deliver (str ''a:__0'') (0x30 # str ''null''), StepJob 0] @ replicate 20 Tick)
         streamCaller)
       = []
   \<and> promises (run (exampleEnv [JNull])
         ([StepJob 0, Deliver (str ''a:__0'') (0x30 # str ''null''), StepJob 0] @ replicate 20 Tick)
         streamCaller)
       = [Resolved JNull]"
proof -
  let ?e = "exampleEnv [JNull]"
  let ?rid = "str ''a:__0''" and ?ev = "str ''ns:h''"
  let ?cb = "TimeoutCallback ?rid 0 ?ev"
  let ?f = "(?ev, 0x33 # str ''a0 t a:__0 null'')"
  let ?w0 = "initialWorld (str ''a'')"
  have len: "length (str ''a:__0 null'') \<le> maxMessageLengthWithPadding"
    by (simp add: str_def maxPadded)
  have frames: "streamFrames ?e InvokeStream ?ev (str ''a0'') (?rid @ SP # str ''null'') = [?f]"
    using len
    by (simp add: streamFrames_def splitLoop.simps[of "[str ''a:__0 null'']"] chunkBodies_Cons
        exampleEnv_def null_frame(4)[symmetric])
       (simp add: str_def SP_def)
  let ?w1 = "?w0\<lparr>promises := [Pending],
        listeners := [?rid \<mapsto> StreamResponse ?rid 0 False],
        jobs := [([?f], Some ?cb)]\<rparr>"
  have w1: "streamCaller = ?w1"
    by (simp add: streamCaller_def invokeStreamInternal_eq frames) (simp add: initialWorld_def)
  let ?w2 = "?w1\<lparr>sent := [?f], jobs := [([], Some ?cb)]\<rparr>"
  have s1: "step ?e (StepJob 0) ?w1 = ?w2"
    by (simp add: stepJob_def initialWorld_def)
  let ?w3 = "?w2\<lparr>listeners := Map.empty, promises := [Resolved JNull]\<rparr>"
  have l2: "listeners ?w2 ?rid = Some (StreamResponse ?rid 0 False)"
    by simp
  have "routeEvent ?e ?rid (flagChar ?e Send # str ''null'') ?w2
        = Inr (callListener ?e (StreamResponse ?rid 0 False) (Some (str ''null'')) ?w2)"
    by (rule routeEvent_send[OF l2])
  moreover have "callListener ?e (StreamResponse ?rid 0 False) (Some (str ''null'')) ?w2 = ?w3"
    by (simp add: callListener_def null_frame(3) settleWith_def settle_def removeListener_def
        initialWorld_def)
  ultimately have s2: "step ?e (Deliver ?rid (0x30 # str ''null'')) ?w2 = ?w3"
    by (simp add: onScriptEventRecieved_def exampleEnv_def initialWorld_def)
  let ?w4 = "?w3\<lparr>jobs := [], timers := [(0, 20, ?cb)], timersCreated := 1,
               streamTimeoutId := [0 \<mapsto> 0]\<rparr>"
  have s3: "step ?e (StepJob 0) ?w3 = ?w4"
    by (simp add: stepJob_def removeAt_def runTimeout_def initialWorld_def)
  have r3: "run ?e [StepJob 0, Deliver ?rid (0x30 # str ''null''), StepJob 0] streamCaller = ?w4"
    unfolding w1 run_Cons s1 s2 s3 by (simp add: run_def)
  have now4: "now ?w4 = 0" "timers ?w4 = [(0, 20, ?cb)]" "promises ?w4 = [Resolved JNull]"
    "listeners ?w4 ?rid = None"
    by (simp_all add: initialWorld_def)
  have r19: "run ?e (replicate 19 Tick) ?w4 = ?w4\<lparr>now := 19\<rparr>"
    using run_ticks_wait[of ?w4 19 ?e] by (simp add: initialWorld_def)
  have t20: "tick (?w4\<lparr>now := 19\<rparr>) = ?w4\<lparr>now := 20, timers := []\<rparr>"
    using runCallback_settled[of "?w4\<lparr>now := 20, timers := []\<rparr>" ?rid 0 ?ev]
    by (simp add: tick_def now4)
  have rep: "replicate 20 Tick = replicate 19 Tick @ [Tick]"
    using replicate_add[of 19 1 Tick] by simp
  have "run ?e (replicate 20 Tick) ?w4 = tick (run ?e (replicate 19 Tick) ?w4)"
    unfolding rep by (simp only: run_def fold_append fold.simps comp_def step.simps id_def)
  also have "\<dots> = tick (?w4\<lparr>now := 19\<rparr>)"
    by (simp only: r19)
  also have "\<dots> = ?w4\<lparr>now := 20, timers := []\<rparr>"
    by (rule t20)
  finally have r20: "run ?e (replicate 20 Tick) ?w4 = ?w4\<lparr>now := 20, timers := []\<rparr>" .
  show ?thesis
    unfolding run_append r3 r19 r20
    by (simp add: w1 now4)
qed

theorem invokeStream_timer_witness:
  "timers ((stepJob 0 ^^ 1) streamCaller) = []
   \<and> sent ((stepJob 0 ^^ 1) streamCaller) = [(str ''ns:h'', 0x33 # str ''a0 t a:__0 null'')]
   \<and> timers ((stepJob 0 ^^ 2) streamCaller)
       = [(0, 20, TimeoutCallback (str ''a:__0'') 0 (str ''ns:h''))]
   \<and> promises (step (exampleEnv [JNull]) (Deliver (str ''a:__0'') (0x30 # str ''null''))
                 ((stepJob 0 ^^ 1) streamCaller))
       = [Resolved JNull]"
proof -
  let ?e = "exampleEnv [JNull]"
  let ?w0 = "initialWorld (str ''a'')"
  have h: "subscribed ?w0" "streamTimeoutId ?w0 (length (promises ?w0)) = None"
    by (simp_all add: initialWorld_def)
  have len: "length (str ''a:__0 null'') \<le> maxMessageLengthWithPadding"
    by (simp add: str_def maxPadded)
  have frames: "streamFrames ?e InvokeStream (str ''ns:h'') (str ''a0'') (str ''a:__0'' @ [SP] @ str ''null'')
                = [(str ''ns:h'', 0x33 # str ''a0 t a:__0 null'')]"
    using len
    by (simp add: streamFrames_def splitLoop.simps[of "[str ''a:__0 null'']"] chunkBodies_Cons
        exampleEnv_def null_frame(4)[symmetric])
       (simp add: str_def SP_def)
  have f: "sent ?w0 = []" "timers ?w0 = []" "promises ?w0 = []" "timersCreated ?w0 = 0" "now ?w0 = 0"
    "jobs ?w0 = []" "flagChar ?e Send = 0x30"
    by (simp_all add: initialWorld_def exampleEnv_def)
  have fs: "fst (invokeStreamInternal ?e (str ''ns:h'') (str ''null'') False False
            (str ''a:__0'') (str ''a0'') ?w0) = 0"
    by (simp add: invokeStreamInternal_eq f)
  note t = invokeStream_timer[OF h, of ?e "str ''ns:h''" "str ''null''" False False
      "str ''a:__0''" "str ''a0''", unfolded Let_def frames f fs, folded streamCaller_def,
      THEN conjunct1]
  have p: "parseRawPayload ?e (Some (str ''null'')) = Inr JNull"
    by (rule null_frame(3))
  have one: "(1::nat) \<le> length [(str ''ns:h'', 0x33 # str ''a0 t a:__0 null'')]" by simp
  note a = t[THEN conjunct2, THEN conjunct2, THEN conjunct1, rule_format, OF one]
  note b = t[THEN conjunct2, THEN conjunct2, THEN conjunct2, THEN conjunct1]
  note c = t[THEN conjunct2, THEN conjunct2, THEN conjunct2, THEN conjunct2, THEN conjunct1,
      rule_format, OF one p, THEN conjunct1]
  from a have a1: "timers ((stepJob 0 ^^ 1) streamCaller) = []"
    and a2: "sent ((stepJob 0 ^^ 1) streamCaller) = [(str ''ns:h'', 0x33 # str ''a0 t a:__0 null'')]"
    by simp_all
  from b have b1: "timers ((stepJob 0 ^^ 2) streamCaller)
       = [(0, 20, TimeoutCallback (str ''a:__0'') 0 (str ''ns:h''))]"
    by (simp add: numeral_2_eq_2)
  from c have c1: "promises (step ?e (Deliver (str ''a:__0'') (0x30 # str ''null''))
                 ((stepJob 0 ^^ 1) streamCaller)) = [Resolved JNull]"
    by simp
  show ?thesis using a1 a2 b1 c1 by (intro conjI)
qed


section \<open>A streamed failure that is lost\<close>

lemma bigEnvelope_facts:
  "length bigEnvelope = 451" "noLineTerminator bigEnvelope"
  "splitLoop [bigEnvelope] = [take 393 bigEnvelope, drop 393 bigEnvelope]"
proof -
  show len: "length bigEnvelope = 451"
    by (simp add: bigEnvelope_def bigValue_def IPCFAILURE_def str_def)
  show "noLineTerminator bigEnvelope"
    by (simp add: bigEnvelope_def bigValue_def IPCFAILURE_def str_def noLineTerminator_def
        lineTerminator_def list_all_iff)
  show "splitLoop [bigEnvelope] = [take 393 bigEnvelope, drop 393 bigEnvelope]"
    using splitLoop_two[of bigEnvelope] len by (simp add: maxPadded)
qed

lemma spacedFailingWorld_eq:
  "spacedFailingWorld = (initialWorld (str ''b c''))
      \<lparr>listeners := [str ''ns:h'' \<mapsto> App (\<lambda>v. Done (Returned (Failure bigValue)))]\<rparr>"
  by (simp add: spacedFailingWorld_def afterRegister_def registerListener_eq
      initialWorld_def str_def COLON_def UNDERSCORE_def startsWith_def)

text \<open>
  Claim C5 as stated fails for a \<open>Failure\<close> whose envelope is streamed by a router whose
  uid holds a space: the serializer round-trips the envelope, the router \<open>b c\<close> answers
  the request with two chunk frames under the stream id \<open>b c0\<close>, the caller files both
  under \<open>b\<close> and never calls the response listener; the promise stays pending and is
  rejected by the timeout 20 ticks after the call.
\<close>

theorem failure_round_trip_counterexample:
  "jsonParse (exampleEnv [JNull, JObj [(IPCFAILURE, bigValue)]])
       (jsonStringify (exampleEnv [JNull, JObj [(IPCFAILURE, bigValue)]])
          (JObj [(IPCFAILURE, bigValue)]))
     = Some (JObj [(IPCFAILURE, bigValue)])
   \<and> routeEvent (exampleEnv [JNull, JObj [(IPCFAILURE, bigValue)]]) (str ''ns:h'')
         (0x31 # str ''a:__0 null'') spacedFailingWorld
       = Inr (spacedFailingWorld\<lparr>streamUidsGenerated := 1,
                jobs := [(streamFrames (exampleEnv [JNull, JObj [(IPCFAILURE, bigValue)]])
                            SendStream (str ''a:__0'') (str ''b c0'') bigEnvelope, None)]\<rparr>)
   \<and> promises invokeCaller = [Pending]
   \<and> promises (run (exampleEnv [JNull, JObj [(IPCFAILURE, bigValue)]])
         (deliveries (streamFrames (exampleEnv [JNull, JObj [(IPCFAILURE, bigValue)]])
            SendStream (str ''a:__0'') (str ''b c0'') bigEnvelope))
         invokeCaller)
       = [Pending]
   \<and> pendingStreams (run (exampleEnv [JNull, JObj [(IPCFAILURE, bigValue)]])
         (deliveries (streamFrames (exampleEnv [JNull, JObj [(IPCFAILURE, bigValue)]])
            SendStream (str ''a:__0'') (str ''b c0'') bigEnvelope))
         invokeCaller)
       = [str ''b'' \<mapsto> str ''f '' @ take 393 bigEnvelope @ str ''t '' @ drop 393 bigEnvelope]
   \<and> promises (run (exampleEnv [JNull, JObj [(IPCFAILURE, bigValue)]])
         (deliveries (streamFrames (exampleEnv [JNull, JObj [(IPCFAILURE, bigValue)]])
            SendStream (str ''a:__0'') (str ''b c0'') bigEnvelope) @ replicate 20 Tick)
         invokeCaller)
       = [Rejected (TimedOut (str ''ns:h''))]"
proof -
  let ?e = "exampleEnv [JNull, JObj [(IPCFAILURE, bigValue)]]"
  let ?rid = "str ''a:__0''" and ?ev = "str ''ns:h''"
  let ?cb = "TimeoutCallback ?rid 0 ?ev"
  let ?L = "InvokeResponse ?rid 0 0 False"
  let ?p1 = "take 393 bigEnvelope" and ?p2 = "drop 393 bigEnvelope"
  let ?f1 = "(?rid, 0x32 # str ''b'' @ SP # str ''c0'' @ SP # str ''f'' @ SP # ?p1)"
  let ?f2 = "(?rid, 0x32 # str ''b'' @ SP # str ''c0'' @ SP # str ''t'' @ SP # ?p2)"
  have fl: "flagChar ?e Invoke \<noteq> flagChar ?e Send" "flagChar ?e Invoke = 0x31"
    "flagChar ?e SendStream = 0x32" "flagChar ?e Send = 0x30"
    by (simp_all add: exampleEnv_def)
  have ser: "jsonStringify ?e (JObj [(IPCFAILURE, bigValue)]) = bigEnvelope"
    by (simp add: exampleEnv_def bigEnvelope_def)
  have rt: "jsonParse ?e bigEnvelope = Some (JObj [(IPCFAILURE, bigValue)])"
    by (simp add: exampleEnv_def exampleParse_def bigEnvelope_def str_def)
  have big: "\<not> length bigEnvelope \<le> MAX_MESSAGE_LENGTH"
    by (simp add: bigEnvelope_facts MAX_MESSAGE_LENGTH_def)
  have sid: "str ''b c0'' = str ''b'' @ SP # str ''c0''"
    by (simp add: str_def SP_def)
  have frames: "streamFrames ?e SendStream ?rid (str ''b c0'') bigEnvelope = [?f1, ?f2]"
    by (simp add: streamFrames_def bigEnvelope_facts(3) chunkBodies_Cons exampleEnv_def sid)
  have sub: "subscribed spacedFailingWorld" "jobs spacedFailingWorld = []"
    "streamUidsGenerated spacedFailingWorld = 0"
    "listeners spacedFailingWorld ?ev = Some (App (\<lambda>v. Done (Returned (Failure bigValue))))"
    "fst (generateStreamUid spacedFailingWorld) = str ''b c0''"
    by (simp_all add: spacedFailingWorld_eq initialWorld_def generateStreamUid_def str_def
        digitChar_def toStringRadix.simps[of 36 0])
  have pn: "parseRawPayload ?e (Some (str ''null'')) = Inr JNull"
    by (simp add: parseRawPayload_def exampleEnv_def exampleParse_def str_def)
  have env: "envelope (Failure bigValue) = JObj [(IPCFAILURE, bigValue)]"
    by (simp add: envelope_def)
  have "routeEvent ?e ?ev (flagChar ?e Invoke # ?rid @ SP # str ''null'') spacedFailingWorld
        = Inr (invokeListener ?e (App (\<lambda>v. Done (Returned (Failure bigValue)))) ?rid
                 (Some (str ''null'')) spacedFailingWorld)"
    by (rule routeEvent_invoke[OF sub(4) fl(1) null_frame(1,2)])
  also have "invokeListener ?e (App (\<lambda>v. Done (Returned (Failure bigValue)))) ?rid
                 (Some (str ''null'')) spacedFailingWorld
      = spacedFailingWorld\<lparr>streamUidsGenerated := 1,
            jobs := [(streamFrames ?e SendStream ?rid (str ''b c0'') bigEnvelope, None)]\<rparr>"
    using big
    by (simp add: invokeListener_def pn afterInvoke_eq env ser sub Let_def del: afterInvoke.simps)
  finally have responder: "routeEvent ?e ?ev (0x31 # str ''a:__0 null'') spacedFailingWorld
      = Inr (spacedFailingWorld\<lparr>streamUidsGenerated := 1,
            jobs := [(streamFrames ?e SendStream ?rid (str ''b c0'') bigEnvelope, None)]\<rparr>)"
    by (simp add: fl(2) null_frame(4))
  let ?w0 = "initialWorld (str ''a'')"
  let ?w1 = "?w0\<lparr>promises := [Pending], timers := [(0, 20, ?cb)], timersCreated := 1,
        listeners := [?rid \<mapsto> ?L],
        sent := [(?ev, 0x31 # ?rid @ SP # str ''null'')]\<rparr>"
  have len: "False \<or> length (?rid @ [SP] @ str ''null'') \<le> MAX_MESSAGE_LENGTH"
    by (simp add: str_def MAX_MESSAGE_LENGTH_def)
  have w1: "invokeCaller = ?w1"
    unfolding invokeCaller_def invokeInternal_eq[OF len]
    by (simp add: initialWorld_def fl(2))
  have a: "SP \<notin> set (str ''b'')" "SP \<notin> set (str ''c0'')" "str ''c0'' \<noteq> str ''t''"
    "noLineTerminator (str ''c0'')" "noLineTerminator (str ''f'')" "noLineTerminator (str ''t'')"
    by (simp_all add: str_def SP_def lineTerminator_def)
  have p: "noLineTerminator ?p1" "noLineTerminator ?p2"
    using bigEnvelope_facts(2) by (simp_all add: noLT_take noLT_drop)
  let ?w2 = "?w1\<lparr>pendingStreams := [str ''b'' \<mapsto> str ''f'' @ SP # ?p1]\<rparr>"
  have r1: "routeEvent ?e ?rid (snd ?f1) ?w1 = Inr ?w2"
    using routeStream_spaced_id[OF a(1,2,3,4) a(5) p(1), of ?e ?L "0x32" ?w1]
    by (simp add: routeEvent_def exampleEnv_def cachedContent_def initialWorld_def)
  let ?w3 = "?w1\<lparr>pendingStreams :=
               [str ''b'' \<mapsto> (str ''f'' @ SP # ?p1) @ str ''t'' @ SP # ?p2]\<rparr>"
  have r2: "routeEvent ?e ?rid (snd ?f2) ?w2 = Inr ?w3"
    using routeStream_spaced_id[OF a(1,2,3,4) a(6) p(2), of ?e ?L "0x32" ?w2]
    by (simp add: routeEvent_def exampleEnv_def cachedContent_def initialWorld_def)
  have x: "(str ''f'' @ SP # ?p1) @ str ''t'' @ SP # ?p2
           = str ''f '' @ take 393 bigEnvelope @ str ''t '' @ drop 393 bigEnvelope"
    by (simp add: str_def SP_def)
  have s1: "step ?e (Deliver ?rid (snd ?f1)) ?w1 = ?w2"
    using r1 by (simp add: onScriptEventRecieved_def initialWorld_def)
  have s2: "step ?e (Deliver ?rid (snd ?f2)) ?w2 = ?w3"
    using r2 by (simp add: onScriptEventRecieved_def initialWorld_def)
  have d: "run ?e (deliveries [?f1, ?f2]) ?w1 = ?w3"
    unfolding deliveries_def list.map fst_conv run_Cons s1 s2 by (simp add: run_def)
  have f3: "now ?w3 = 0" "timers ?w3 = [(0, 20, ?cb)]" "promises ?w3 = [Pending]"
    "listeners ?w3 ?rid = Some ?L"
    by (simp_all add: initialWorld_def)
  have r19: "run ?e (replicate 19 Tick) ?w3 = ?w3\<lparr>now := 19\<rparr>"
    using run_ticks_wait[of ?w3 19 ?e] by (simp add: initialWorld_def)
  have t20: "tick (?w3\<lparr>now := 19\<rparr>)
             = ?w3\<lparr>now := 20, timers := [], listeners := Map.empty,
                   promises := [Rejected (TimedOut ?ev)]\<rparr>"
    by (simp add: tick_def settle_def removeListener_def initialWorld_def)
  have rep: "replicate 20 Tick = replicate 19 Tick @ [Tick]"
    using replicate_add[of 19 1 Tick] by simp
  have "run ?e (replicate 20 Tick) ?w3 = tick (run ?e (replicate 19 Tick) ?w3)"
    unfolding rep by (simp only: run_def fold_append fold.simps comp_def step.simps id_def)
  also have "\<dots> = tick (?w3\<lparr>now := 19\<rparr>)"
    by (simp only: r19)
  finally have r20: "promises (run ?e (replicate 20 Tick) ?w3) = [Rejected (TimedOut ?ev)]"
    unfolding t20 by simp
  have c1: "promises invokeCaller = [Pending]"
    unfolding w1 by simp
  have c2: "promises (run ?e (deliveries [?f1, ?f2]) invokeCaller) = [Pending]"
    unfolding w1 d by simp
  have c3: "pendingStreams (run ?e (deliveries [?f1, ?f2]) invokeCaller)
       = [str ''b'' \<mapsto> str ''f '' @ take 393 bigEnvelope @ str ''t '' @ drop 393 bigEnvelope]"
    unfolding w1 d x[symmetric] by simp
  have c4: "promises (run ?e (deliveries [?f1, ?f2] @ replicate 20 Tick) invokeCaller)
       = [Rejected (TimedOut ?ev)]"
    unfolding w1 run_append d by (rule r20)
  show ?thesis
    unfolding ser frames
    by (intro conjI) (rule rt responder[unfolded frames] c1 c2 c3 c4)+
qed

end
